theory Spec2Isabelle
  imports Complex_Main "HOL-Library.Multiset" "HOL-Library.Sublist"
begin

section \<open>Rhythm Guessing: the generation engine of script.js\<close>

text \<open>
  The theory embeds the rhythm generator, the canonical key and the option builder of
  \<^verbatim>\<open>script.js\<close>. JavaScript numbers that only ever hold small integers (unit counts)
  are \<open>int\<close>; values of \<^verbatim>\<open>Math.random()\<close> are \<open>real\<close>; an optional property of an object
  is an \<open>option\<close>; an exception is a value \<open>Inl e\<close>.
\<close>

subsection \<open>Tokens and the catalogue\<close>

text \<open>
  A token object has the properties \<^verbatim>\<open>name\<close>, \<^verbatim>\<open>units\<close> and, optionally, \<^verbatim>\<open>vfDur\<close>,
  \<^verbatim>\<open>dots\<close>, \<^verbatim>\<open>isTriplet\<close> and \<^verbatim>\<open>base\<close>. The flag \<^verbatim>\<open>isTriplet\<close> is only ever set to
  \<^verbatim>\<open>true\<close> and only ever tested for truth, so an absent flag is \<open>False\<close>.
\<close>

datatype token = Token (name: string) (units: int) (vfDur: "string option")
  (dots: "int option") (isTriplet: bool) (base: "token option")

definition UNIT :: int where
  "UNIT = 1"

definition UNITS_PER_QUARTER :: int where
  "UNITS_PER_QUARTER = 8"

definition UNITS_PER_BAR :: int where
  "UNITS_PER_BAR = UNITS_PER_QUARTER * 4"

definition plain :: "string \<Rightarrow> int \<Rightarrow> string \<Rightarrow> token" where
  "plain n u d = Token n u (Some d) None False None"

definition TYPES :: "(string \<times> token) list" where
  "TYPES =
    [(''semibreve'', plain ''semibreve'' 32 ''w''),
     (''minim'', plain ''minim'' 16 ''h''),
     (''crotchet'', plain ''crotchet'' 8 ''q''),
     (''quaver'', plain ''quaver'' 4 ''8''),
     (''semiquaver'', plain ''semiquaver'' 2 ''16''),
     (''demisemiquaver'', plain ''demisemiquaver'' 1 ''32'')]"

text \<open>
  \<^verbatim>\<open>TYPES[k]\<close>. Every key that the program looks up is a literal of \<^verbatim>\<open>LEVELS\<close> or of the
  function body and is a key of \<^verbatim>\<open>TYPES\<close> (lemma \<open>LEVELS_keys_in_TYPES\<close> below), so the
  lookup never yields \<^verbatim>\<open>undefined\<close>.
\<close>

definition TYPES_at :: "string \<Rightarrow> token" where
  "TYPES_at k = the (map_of TYPES k)"

text \<open>\<^verbatim>\<open>Math.floor(type.units * 1.5)\<close> on an integer number of units.\<close>

definition floor_times_1_5 :: "int \<Rightarrow> int" where
  "floor_times_1_5 u = \<lfloor>(of_int u :: real) * (3 / 2)\<rfloor>"

definition dottedOf :: "token \<Rightarrow> token" where
  "dottedOf t = Token (''dotted-'' @ name t) (floor_times_1_5 (units t)) (vfDur t) (Some 1) False None"

definition tripletGroup :: "token \<Rightarrow> token" where
  "tripletGroup baseType =
     Token (''triplet-'' @ name baseType) UNITS_PER_QUARTER None None True (Some baseType)"

subsection \<open>Level configuration\<close>

record level_cfg =
  allowed :: "string list"
  required :: "string list"
  allowDotted :: bool
  allowTriplets :: bool
  halfOfTypes :: bool

definition LEVELS :: "(string \<times> level_cfg) list" where
  "LEVELS =
    [(''easy'',
       \<lparr>allowed = [''semibreve'', ''minim'', ''crotchet'', ''quaver''],
        required = [''semibreve'', ''minim'', ''crotchet'', ''quaver''],
        allowDotted = False, allowTriplets = False, halfOfTypes = False\<rparr>),
     (''medium'',
       \<lparr>allowed = [''semibreve'', ''minim'', ''crotchet'', ''quaver'', ''semiquaver''],
        required = [''semibreve'', ''minim'', ''crotchet'', ''quaver'', ''semiquaver'',
                    ''dotted'', ''triplet''],
        allowDotted = True, allowTriplets = True, halfOfTypes = False\<rparr>),
     (''difficult'',
       \<lparr>allowed = [''semibreve'', ''minim'', ''crotchet'', ''quaver'', ''semiquaver'',
                   ''demisemiquaver''],
        required = [],
        allowDotted = False, allowTriplets = False, halfOfTypes = True\<rparr>)]"

text \<open>\<^verbatim>\<open>LEVELS.medium\<close> and \<^verbatim>\<open>LEVELS.difficult\<close>, read by name in the generator.\<close>

definition LEVELS_at :: "string \<Rightarrow> level_cfg" where
  "LEVELS_at k = the (map_of LEVELS k)"

subsection \<open>Copies and the canonical key\<close>

text \<open>
  \<^verbatim>\<open>Object.assign({}, token)\<close>: a fresh object that receives each own property of the
  token with its value (a shallow copy: \<^verbatim>\<open>base\<close> still refers to the same catalogue
  entry).
\<close>

definition assign_copy :: "token \<Rightarrow> token" where
  "assign_copy t = Token (name t) (units t) (vfDur t) (dots t) (isTriplet t) (base t)"

definition cloneBars :: "token list list \<Rightarrow> token list list" where
  "cloneBars bars = map (\<lambda>bar. map (\<lambda>token. assign_copy token) bar) bars"

text \<open>Decimal digits of a number, as template literals print an integer.\<close>

definition digit_char :: "nat \<Rightarrow> char" where
  "digit_char d = ''0123456789'' ! d"

fun nat_to_string :: "nat \<Rightarrow> string" where
  "nat_to_string n = (if n < 10 then [digit_char n] else nat_to_string (n div 10) @ [digit_char (n mod 10)])"

declare nat_to_string.simps [simp del]

definition number_to_string :: "int \<Rightarrow> string" where
  "number_to_string i = (if i < 0 then CHR ''-'' # nat_to_string (nat (- i)) else nat_to_string (nat i))"

text \<open>\<^verbatim>\<open>Array.prototype.join\<close> on an array of strings.\<close>

fun join :: "string \<Rightarrow> string list \<Rightarrow> string" where
  "join sep [] = []"
| "join sep [x] = x"
| "join sep (x # y # ys) = x @ sep @ join sep (y # ys)"

text \<open>
  The per-token string of \<^verbatim>\<open>barsKey\<close>. \<^verbatim>\<open>token.vfDur || ''\<close> is the empty string for an
  absent or empty \<^verbatim>\<open>vfDur\<close>; \<^verbatim>\<open>token.dots || 0\<close> is \<^verbatim>\<open>0\<close> for an absent or zero \<^verbatim>\<open>dots\<close>.
\<close>

definition tokenKey :: "token \<Rightarrow> string" where
  "tokenKey t =
     (if isTriplet t
      then ''triplet:'' @ (case base t of Some b \<Rightarrow> name b | None \<Rightarrow> '''')
      else name t @ '':'' @ number_to_string (units t) @ '':''
           @ (case vfDur t of Some d \<Rightarrow> d | None \<Rightarrow> '''') @ '':''
           @ number_to_string (case dots t of Some n \<Rightarrow> n | None \<Rightarrow> 0))"

definition barsKey :: "token list list \<Rightarrow> string" where
  "barsKey bars = join ''|'' (map (\<lambda>bar. join ''-'' (map tokenKey bar)) bars)"

subsection \<open>The random source and the engine's sort\<close>

text \<open>
  The program reads \<^verbatim>\<open>Math.random()\<close> and calls \<^verbatim>\<open>Array.prototype.sort\<close> with the
  comparator \<^verbatim>\<open>()=>Math.random()-.5\<close>. Both belong to the JavaScript engine, so they are
  parameters of the model. \<open>math_random e k\<close> is the value of the \<open>k\<close>-th call of
  \<^verbatim>\<open>Math.random()\<close>; every function below takes the number \<open>k\<close> of calls made so far and
  returns the new count. The comparator ignores its arguments, so what a sort does to an
  array depends only on the array's length and on the values drawn: \<open>sort_order e k n\<close>
  gives, for a sort of \<open>n\<close> elements started after \<open>k\<close> draws, the list of old positions
  in their new order, and the count of draws after the sort.
\<close>

record env =
  math_random :: "nat \<Rightarrow> real"
  sort_order :: "nat \<Rightarrow> nat \<Rightarrow> nat list \<times> nat"

text \<open>
  What the language guarantees of the engine: \<^verbatim>\<open>Math.random()\<close> lies in \<open>[0, 1)\<close>, a
  sort rearranges the elements of the array, and the count of draws does not go down
  during a sort.
\<close>

definition env_ok :: "env \<Rightarrow> bool" where
  "env_ok e \<longleftrightarrow>
     (\<forall>k. 0 \<le> math_random e k \<and> math_random e k < 1) \<and>
     (\<forall>k n. mset (fst (sort_order e k n)) = mset [0..<n]) \<and>
     (\<forall>k n. k \<le> snd (sort_order e k n))"

definition Math_random :: "env \<Rightarrow> nat \<Rightarrow> real \<times> nat" where
  "Math_random e k = (math_random e k, Suc k)"

text \<open>\<^verbatim>\<open>xs.sort(()=>Math.random()-.5)\<close>.\<close>

definition sort_random :: "env \<Rightarrow> nat \<Rightarrow> 'a list \<Rightarrow> 'a list \<times> nat" where
  "sort_random e k xs =
     (case sort_order e k (length xs) of (p, k') \<Rightarrow> (map (\<lambda>i. xs ! i) p, k'))"

text \<open>
  \<^verbatim>\<open>pickRandom(arr)\<close>: \<^verbatim>\<open>arr[Math.floor(Math.random()*arr.length)]\<close>. An index outside
  the array reads \<^verbatim>\<open>undefined\<close>, here \<open>None\<close>.
\<close>

definition pickRandom :: "env \<Rightarrow> nat \<Rightarrow> 'a list \<Rightarrow> 'a option \<times> nat" where
  "pickRandom e k arr =
     (case Math_random e k of (r, k') \<Rightarrow>
        (let i = \<lfloor>r * of_nat (length arr)\<rfloor>
         in (if 0 \<le> i \<and> nat i < length arr then Some (arr ! nat i) else None, k')))"

subsection \<open>generateForLevel\<close>

datatype error = TypeError

text \<open>
  The base of the required dotted token:
  \<^verbatim>\<open>LEVELS.medium.allowed.map(k=>TYPES[k]).find(t=>t.units<=16) || TYPES.crotchet\<close>.
\<close>

definition dotted_base :: token where
  "dotted_base =
     (case List.find (\<lambda>t. units t \<le> 16) (map TYPES_at (allowed (LEVELS_at ''medium''))) of
        Some t \<Rightarrow> t
      | None \<Rightarrow> TYPES_at ''crotchet'')"

text \<open>The block that computes \<^verbatim>\<open>requiredTokens\<close> (lines 193 to 213).\<close>

definition resolveRequired :: "env \<Rightarrow> nat \<Rightarrow> level_cfg \<Rightarrow> token \<Rightarrow> token list \<times> nat" where
  "resolveRequired e k cfg tripletTemplate =
     (if halfOfTypes cfg then
        (let baseTypes = allowed (LEVELS_at ''difficult'');
             chooseCount = max 1 (length baseTypes div 2)
         in case sort_random e k baseTypes of (shuffled, k') \<Rightarrow>
              (let chosen = take chooseCount shuffled
               in (map TYPES_at chosen, k')))
      else if required cfg \<noteq> [] then
        (map (\<lambda>r. if r = ''dotted'' then dottedOf dotted_base
                   else if r = ''triplet'' then tripletTemplate
                   else TYPES_at r) (required cfg), k)
      else ([], k))"

text \<open>
  The loop that places each required token in bar 0 or bar 1
  (\<^verbatim>\<open>Math.random() < 0.5 ? 0 : 1\<close>); the pair is \<^verbatim>\<open>barReqs\<close>.
\<close>

fun distribute :: "env \<Rightarrow> nat \<Rightarrow> token list \<Rightarrow> token list \<times> token list
    \<Rightarrow> (token list \<times> token list) \<times> nat" where
  "distribute e k [] barReqs = (barReqs, k)"
| "distribute e k (req # reqs) (b0, b1) =
     (case Math_random e k of (r, k') \<Rightarrow>
        (if r < 1 / 2 then distribute e k' reqs (b0 @ [req], b1)
         else distribute e k' reqs (b0, b1 @ [req])))"

subsubsection \<open>fillBar\<close>

text \<open>The first loop of \<^verbatim>\<open>fillBar\<close>: a copy of each required token is pushed.\<close>

fun placeRequired :: "token list \<Rightarrow> token list \<times> int \<Rightarrow> token list \<times> int" where
  "placeRequired [] st = st"
| "placeRequired (t # ts) (tokens, usedUnits) =
     placeRequired ts (tokens @ [assign_copy t], usedUnits + units t)"

definition maxTries :: nat where
  "maxTries = 1000"

text \<open>
  The greedy random fill. A candidate read outside the pool is \<^verbatim>\<open>undefined\<close>, and
  \<^verbatim>\<open>cand.units\<close> then throws a \<^verbatim>\<open>TypeError\<close>.
\<close>

function fillLoop :: "env \<Rightarrow> token list \<Rightarrow> nat \<Rightarrow> nat \<Rightarrow> token list \<Rightarrow> int
    \<Rightarrow> error + (token list \<times> int \<times> nat)" where
  "fillLoop e allowedPool tries k tokens usedUnits =
     (if usedUnits < UNITS_PER_BAR \<and> tries < maxTries then
        (case pickRandom e k allowedPool of
           (None, k') \<Rightarrow> Inl TypeError
         | (Some cand, k') \<Rightarrow>
             (if usedUnits + units cand > UNITS_PER_BAR
              then fillLoop e allowedPool (tries + 1) k' tokens usedUnits
              else fillLoop e allowedPool (tries + 1) k' (tokens @ [assign_copy cand])
                     (usedUnits + units cand)))
      else Inr (tokens, usedUnits, k))"
  by pat_completeness auto
termination
  by (relation "measure (\<lambda>(e, allowedPool, tries, k, tokens, usedUnits). maxTries - tries)") auto

declare fillLoop.simps [simp del]

definition smallest :: token where
  "smallest = Token ''demisemiquaver'' 1 (Some ''32'') None False None"

text \<open>Padding with the smallest unit until the bar is full.\<close>

function padLoop :: "token list \<Rightarrow> int \<Rightarrow> token list \<times> int" where
  "padLoop tokens usedUnits =
     (if usedUnits < UNITS_PER_BAR then padLoop (tokens @ [smallest]) (usedUnits + 1)
      else (tokens, usedUnits))"
  by pat_completeness auto
termination
  by (relation "measure (\<lambda>(tokens, usedUnits). nat (UNITS_PER_BAR - usedUnits))") auto

declare padLoop.simps [simp del]

text \<open>The trim of an overfilled bar: \<^verbatim>\<open>tokens.pop()\<close> at most 50 times.\<close>

function trimLoop :: "token list \<Rightarrow> int \<Rightarrow> nat \<Rightarrow> token list \<times> int" where
  "trimLoop tokens usedUnits i =
     (if usedUnits > UNITS_PER_BAR \<and> tokens \<noteq> [] \<and> i < 50
      then trimLoop (butlast tokens) (usedUnits - units (last tokens)) (i + 1)
      else (tokens, usedUnits))"
  by pat_completeness auto
termination
  by (relation "measure (\<lambda>(tokens, usedUnits, i). 50 - i)") auto

declare trimLoop.simps [simp del]

text \<open>
  \<open>fillBar_filled\<close> is \<^verbatim>\<open>fillBar\<close> up to the end of the padding loop: the tokens and the
  value of \<^verbatim>\<open>usedUnits\<close> that reach the trim.
\<close>

definition fillBar_filled :: "env \<Rightarrow> nat \<Rightarrow> level_cfg \<Rightarrow> token list \<Rightarrow> token \<Rightarrow> token list
    \<Rightarrow> error + (token list \<times> int \<times> nat)" where
  "fillBar_filled e k cfg allowed_types tripletTemplate withRequiredTokens =
     (case placeRequired withRequiredTokens ([], 0) of (tokens, usedUnits) \<Rightarrow>
        (let allowedPool = allowed_types @ (if allowTriplets cfg then [tripletTemplate] else [])
         in case fillLoop e allowedPool 0 k tokens usedUnits of
              Inl err \<Rightarrow> Inl err
            | Inr (tokens1, usedUnits1, k1) \<Rightarrow>
                (case padLoop tokens1 usedUnits1 of (tokens2, usedUnits2) \<Rightarrow>
                   Inr (tokens2, usedUnits2, k1))))"

text \<open>
  The rest of \<^verbatim>\<open>fillBar\<close>: trim, validation (a console warning, no effect on the
  result) and the final random sort.
\<close>

definition fillBar :: "env \<Rightarrow> nat \<Rightarrow> level_cfg \<Rightarrow> token list \<Rightarrow> token \<Rightarrow> token list
    \<Rightarrow> error + (token list \<times> nat)" where
  "fillBar e k cfg allowed_types tripletTemplate withRequiredTokens =
     (case fillBar_filled e k cfg allowed_types tripletTemplate withRequiredTokens of
        Inl err \<Rightarrow> Inl err
      | Inr (tokens2, usedUnits2, k1) \<Rightarrow>
          (case trimLoop tokens2 usedUnits2 0 of (tokens3, usedUnits3) \<Rightarrow>
             Inr (sort_random e k1 tokens3)))"

text \<open>The pool of allowed types (lines 183 to 188).\<close>

definition allowedOf :: "level_cfg \<Rightarrow> token list" where
  "allowedOf cfg =
     (let allowed_types = map TYPES_at (allowed cfg)
      in if allowDotted cfg
         then allowed_types @
              map (\<lambda>t. Token (''dotted-'' @ name t) (floor_times_1_5 (units t)) (vfDur t)
                         (Some 1) False None) allowed_types
         else allowed_types)"

text \<open>
  \<^verbatim>\<open>generateForLevel(levelKey)\<close>; the result is the array \<^verbatim>\<open>bars\<close> of the returned object.
  An unknown key makes \<^verbatim>\<open>cfg\<close> undefined, and \<^verbatim>\<open>cfg.allowed\<close> throws.
\<close>

definition generateForLevel :: "env \<Rightarrow> nat \<Rightarrow> string \<Rightarrow> error + (token list list \<times> nat)" where
  "generateForLevel e k levelKey =
     (case map_of LEVELS levelKey of
        None \<Rightarrow> Inl TypeError
      | Some cfg \<Rightarrow>
          (let allowed_types = allowedOf cfg;
               tripletTemplate = tripletGroup (TYPES_at ''quaver'')
           in case resolveRequired e k cfg tripletTemplate of (requiredTokens, k1) \<Rightarrow>
              (case distribute e k1 requiredTokens ([], []) of ((barReqs0, barReqs1), k2) \<Rightarrow>
                 (case fillBar e k2 cfg allowed_types tripletTemplate barReqs0 of
                    Inl err \<Rightarrow> Inl err
                  | Inr (bar0, k3) \<Rightarrow>
                      (case fillBar e k3 cfg allowed_types tripletTemplate barReqs1 of
                         Inl err \<Rightarrow> Inl err
                       | Inr (bar1, k4) \<Rightarrow> Inr ([bar0, bar1], k4))))))"

subsection \<open>generateOptions\<close>

text \<open>The loop that collects candidates with unseen keys, at most 200 attempts.\<close>

function collectOptions :: "env \<Rightarrow> string \<Rightarrow> nat \<Rightarrow> nat \<Rightarrow> token list list list \<Rightarrow> string set
    \<Rightarrow> error + (token list list list \<times> string set \<times> nat)" where
  "collectOptions e levelKey attempts k options seen =
     (if length options < 4 \<and> attempts < 200 then
        (case generateForLevel e k levelKey of
           Inl err \<Rightarrow> Inl err
         | Inr (candidate, k') \<Rightarrow>
             (let key = barsKey candidate
              in if key \<in> seen then collectOptions e levelKey (attempts + 1) k' options seen
                 else collectOptions e levelKey (attempts + 1) k' (options @ [candidate])
                        (insert key seen)))
      else Inr (options, seen, k))"
  by pat_completeness auto
termination
  by (relation "measure (\<lambda>(e, levelKey, attempts, k, options, seen). 200 - attempts)") auto

declare collectOptions.simps [simp del]

text \<open>The loop that pads with copies of the correct rhythm.\<close>

function padOptions :: "token list list \<Rightarrow> token list list list \<Rightarrow> token list list list" where
  "padOptions correctBars options =
     (if length options < 4 then padOptions correctBars (options @ [cloneBars correctBars])
      else options)"
  by pat_completeness auto
termination
  by (relation "measure (\<lambda>(correctBars, options). 4 - length options)") auto

declare padOptions.simps [simp del]

text \<open>\<^verbatim>\<open>Array.prototype.findIndex\<close>: the first index that satisfies the test, or \<open>-1\<close>.\<close>

fun findIndex_from :: "('a \<Rightarrow> bool) \<Rightarrow> 'a list \<Rightarrow> int \<Rightarrow> int" where
  "findIndex_from P [] i = - 1"
| "findIndex_from P (x # xs) i = (if P x then i else findIndex_from P xs (i + 1))"

definition findIndex :: "('a \<Rightarrow> bool) \<Rightarrow> 'a list \<Rightarrow> int" where
  "findIndex P xs = findIndex_from P xs 0"

text \<open>\<^verbatim>\<open>generateOptions(correctBars, levelKey)\<close>: the options and \<^verbatim>\<open>correctIndex\<close>.\<close>

definition generateOptions :: "env \<Rightarrow> nat \<Rightarrow> token list list \<Rightarrow> string
    \<Rightarrow> error + ((token list list list \<times> int) \<times> nat)" where
  "generateOptions e k correctBars levelKey =
     (case collectOptions e levelKey 0 k [correctBars] {barsKey correctBars} of
        Inl err \<Rightarrow> Inl err
      | Inr (options1, seen, k1) \<Rightarrow>
          (let options = padOptions correctBars options1
           in case sort_random e k1 (zip options [0..<length options]) of (order, k2) \<Rightarrow>
                (let shuffled = map fst order;
                     correctIndex = findIndex (\<lambda>x. snd x = 0) order
                 in Inr ((shuffled, correctIndex), k2))))"

subsection \<open>An example engine\<close>

text \<open>
  For concrete runs an engine is needed. This one sorts by straight insertion, as
  engines do for short arrays: each element in turn is compared with the elements to its
  left, from the right, and moves past an element when the comparator's result
  \<^verbatim>\<open>Math.random() - .5\<close> is positive. The sorted prefix is kept reversed.
\<close>

fun insert_right :: "(nat \<Rightarrow> real) \<Rightarrow> nat \<Rightarrow> nat \<Rightarrow> nat list \<Rightarrow> nat list \<times> nat" where
  "insert_right rnd k x [] = ([x], k)"
| "insert_right rnd k x (y # ys) =
     (if rnd k - 1 / 2 > 0
      then (case insert_right rnd (Suc k) x ys of (zs, k') \<Rightarrow> (y # zs, k'))
      else (x # y # ys, Suc k))"

fun insertion_order :: "(nat \<Rightarrow> real) \<Rightarrow> nat \<Rightarrow> nat list \<Rightarrow> nat list \<Rightarrow> nat list \<times> nat" where
  "insertion_order rnd k [] rp = (rev rp, k)"
| "insertion_order rnd k (x # xs) rp =
     (case insert_right rnd k x rp of (rp', k') \<Rightarrow> insertion_order rnd k' xs rp')"

definition insertion_engine :: "(nat \<Rightarrow> real) \<Rightarrow> env" where
  "insertion_engine rnd =
     \<lparr>math_random = rnd, sort_order = (\<lambda>k n. insertion_order rnd k [0..<n] [])\<rparr>"

text \<open>A random source given by its first values; every later value is \<open>0\<close>.\<close>

definition draws :: "real list \<Rightarrow> nat \<Rightarrow> real" where
  "draws rs k = (if k < length rs then rs ! k else 0)"

subsection \<open>The tokens of the catalogue\<close>

text \<open>
  Every token that the catalogue can build: the six entries of \<^verbatim>\<open>TYPES\<close>, their dotted
  forms and their triplet groups. The generator only ever returns such tokens (lemma
  \<open>generateForLevel_catalogue\<close> below).
\<close>

definition catalogue_tokens :: "token list" where
  "catalogue_tokens =
     map snd TYPES @ map (\<lambda>(k, t). dottedOf t) TYPES @ map (\<lambda>(k, t). tripletGroup t) TYPES"

subsection \<open>How often the example engine chooses a set of types\<close>

text \<open>
  The example engine reads of a drawn value only the sign of the comparator's result.
  A run of its sort is therefore a path in a binary decision tree: at a node the
  comparator is called once; the right branch is taken when the result is positive.
\<close>

datatype 'a dtree = Leaf 'a | Node "'a dtree" "'a dtree"

fun run :: "'a dtree \<Rightarrow> (nat \<Rightarrow> bool) \<Rightarrow> nat \<Rightarrow> 'a \<times> nat" where
  "run (Leaf a) c k = (a, k)"
| "run (Node l r) c k = run (if c k then r else l) c (Suc k)"

fun run_list :: "'a dtree \<Rightarrow> bool list \<Rightarrow> 'a" where
  "run_list (Leaf a) bs = a"
| "run_list (Node l r) [] = run_list l []"
| "run_list (Node l r) (b # bs) = run_list (if b then r else l) bs"

fun height :: "'a dtree \<Rightarrow> nat" where
  "height (Leaf a) = 0"
| "height (Node l r) = Suc (max (height l) (height r))"

text \<open>
  Of the \<open>2 ^ n\<close> sign sequences of length \<open>n\<close>, \<open>weight n P t\<close> end in a leaf that
  satisfies \<open>P\<close> (for a tree of height at most \<open>n\<close>).
\<close>

fun weight :: "nat \<Rightarrow> ('a \<Rightarrow> bool) \<Rightarrow> 'a dtree \<Rightarrow> nat" where
  "weight n P (Leaf a) = (if P a then 2 ^ n else 0)"
| "weight n P (Node l r) = weight (n - 1) P l + weight (n - 1) P r"

fun bind_dtree :: "'a dtree \<Rightarrow> ('a \<Rightarrow> 'b dtree) \<Rightarrow> 'b dtree" where
  "bind_dtree (Leaf a) f = f a"
| "bind_dtree (Node l r) f = Node (bind_dtree l f) (bind_dtree r f)"

text \<open>The trees of \<open>insert_right\<close> and \<open>insertion_order\<close>.\<close>

fun insert_tree :: "nat \<Rightarrow> nat list \<Rightarrow> nat list dtree" where
  "insert_tree x [] = Leaf [x]"
| "insert_tree x (y # ys) = Node (Leaf (x # y # ys)) (map_dtree (\<lambda>zs. y # zs) (insert_tree x ys))"

fun order_tree :: "nat list \<Rightarrow> nat list \<Rightarrow> nat list dtree" where
  "order_tree [] rp = Leaf (rev rp)"
| "order_tree (x # xs) rp = bind_dtree (insert_tree x rp) (\<lambda>rp'. order_tree xs rp')"

text \<open>
  A sequence of signs as a random source: 0.75 where the comparator's result is to be
  positive, 0 where it is not.
\<close>

definition sign_source :: "bool list \<Rightarrow> nat \<Rightarrow> real" where
  "sign_source bs = draws (map (\<lambda>b. if b then 3 / 4 else 0) bs)"

text \<open>
  The names of the required tokens that a first call of \<^verbatim>\<open>generateForLevel('difficult')\<close>
  resolves when the comparator's signs are \<open>bs\<close>, and the number of sign sequences of
  length 15 (a sort of six elements by insertion makes at most 15 comparisons) for which
  the set of these names is \<open>S\<close>.
\<close>

definition chosen_types :: "bool list \<Rightarrow> string list" where
  "chosen_types bs =
     map name (fst (resolveRequired (insertion_engine (sign_source bs)) 0
       (LEVELS_at ''difficult'') (tripletGroup (TYPES_at ''quaver''))))"

definition times_chosen :: "string set \<Rightarrow> nat" where
  "times_chosen S = length (filter (\<lambda>bs. set (chosen_types bs) = S) (List.n_lists 15 [False, True]))"

subsection \<open>The schedule of playRhythm\<close>

text \<open>
  \<^verbatim>\<open>playRhythm\<close> walks the bars and calls \<^verbatim>\<open>scheduleClick(cursor, accent)\<close>; what is
  modelled is the list of these calls and the value of \<^verbatim>\<open>cursor\<close>. The times are
  JavaScript numbers: every arithmetic operation yields the exact result rounded to a
  number. The rounding \<open>rd\<close> is a parameter, so that the schedule can be read in exact
  arithmetic (\<open>rd\<close> the identity) and in the arithmetic of the language
  (\<open>round_double\<close> below). \<^verbatim>\<open>secondsPerUnit\<close> is the parameter \<open>spu\<close>.
\<close>

type_synonym click = "real \<times> bool"

text \<open>The loop \<^verbatim>\<open>for(let i=0;i<3;i++)\<close> of a triplet group.\<close>

function tripletLoop :: "(real \<Rightarrow> real) \<Rightarrow> real \<Rightarrow> bool \<Rightarrow> nat \<Rightarrow> real \<Rightarrow> click list
    \<Rightarrow> click list \<times> real" where
  "tripletLoop rd subDur isFirstNoteInBar i cursor clicks =
     (if i < 3
      then tripletLoop rd subDur isFirstNoteInBar (i + 1) (rd (cursor + subDur))
             (clicks @ [(cursor, isFirstNoteInBar \<and> i = 0)])
      else (clicks, cursor))"
  by pat_completeness auto
termination
  by (relation "measure (\<lambda>(rd, subDur, isFirstNoteInBar, i, cursor, clicks). 3 - i)") auto

declare tripletLoop.simps [simp del]

text \<open>The body of the loop over the tokens of a bar.\<close>

definition playToken :: "(real \<Rightarrow> real) \<Rightarrow> real \<Rightarrow> token \<Rightarrow> bool \<Rightarrow> real \<Rightarrow> click list
    \<Rightarrow> click list \<times> real" where
  "playToken rd spu token isFirstNoteInBar cursor clicks =
     (if isTriplet token
      then (let subDur = rd (rd (of_int (units token) / 3) * spu)
            in tripletLoop rd subDur isFirstNoteInBar 0 cursor clicks)
      else (clicks @ [(cursor, isFirstNoteInBar)], rd (cursor + rd (of_int (units token) * spu))))"

fun playBar :: "(real \<Rightarrow> real) \<Rightarrow> real \<Rightarrow> token list \<Rightarrow> bool \<Rightarrow> real \<Rightarrow> click list
    \<Rightarrow> click list \<times> real" where
  "playBar rd spu [] isFirstNoteInBar cursor clicks = (clicks, cursor)"
| "playBar rd spu (token # bar) isFirstNoteInBar cursor clicks =
     (case playToken rd spu token isFirstNoteInBar cursor clicks of
        (clicks', cursor') \<Rightarrow> playBar rd spu bar False cursor' clicks')"

fun playBars :: "(real \<Rightarrow> real) \<Rightarrow> real \<Rightarrow> token list list \<Rightarrow> real \<Rightarrow> click list
    \<Rightarrow> click list \<times> real" where
  "playBars rd spu [] cursor clicks = (clicks, cursor)"
| "playBars rd spu (bar # bars) cursor clicks =
     (case playBar rd spu bar True cursor clicks of
        (clicks', cursor') \<Rightarrow> playBars rd spu bars cursor' clicks')"

subsection \<open>The numbers of the language\<close>

text \<open>
  A JavaScript number is a binary floating-point number with a significand of 53 bits;
  an operation rounds its exact result to the nearest number, to the even significand
  on a tie. \<open>binade n x 0\<close> is the exponent \<open>e\<close> with \<open>2 ^ e \<le> x < 2 ^ (e + 1)\<close> for a
  positive \<open>x\<close> (the search is bounded by \<open>n\<close>; 2200 steps cover every magnitude that a
  number can have). Below \<open>2 ^ -1022\<close> the spacing stays \<open>2 ^ -1074\<close>. Overflow to
  infinity, at \<open>2 ^ 1024\<close>, is not modelled.
\<close>

fun binade :: "nat \<Rightarrow> real \<Rightarrow> int \<Rightarrow> int" where
  "binade 0 x e = e"
| "binade (Suc n) x e =
     (if x \<ge> 2 then binade n (x / 2) (e + 1)
      else if x < 1 then binade n (x * 2) (e - 1)
      else e)"

definition pow2 :: "int \<Rightarrow> real" where
  "pow2 k = (if k \<ge> 0 then 2 ^ nat k else 1 / 2 ^ nat (- k))"

definition round_half_even :: "real \<Rightarrow> int" where
  "round_half_even q =
     (let f = \<lfloor>q\<rfloor>; d = q - of_int f
      in if d < 1 / 2 then f else if d > 1 / 2 then f + 1 else if even f then f else f + 1)"

definition round_double :: "real \<Rightarrow> real" where
  "round_double x =
     (if x = 0 then 0
      else (let e = binade 2200 \<bar>x\<bar> 0; ulp = pow2 (max e (- 1022) - 52)
            in of_int (round_half_even (x / ulp)) * ulp))"

text \<open>
  \<^verbatim>\<open>secondsPerUnit\<close> as the program computes it, \<^verbatim>\<open>(60 / TEMPO_BPM) / UNITS_PER_QUARTER\<close>
  with \<^verbatim>\<open>TEMPO_BPM = 96\<close>.
\<close>

definition TEMPO_BPM :: real where
  "TEMPO_BPM = 96"

definition secondsPerUnit :: real where
  "secondsPerUnit = round_double (round_double (60 / TEMPO_BPM) / of_int UNITS_PER_QUARTER)"

section \<open>Properties\<close>

subsection \<open>Copies, the random sort and the loops of fillBar\<close>

lemma assign_copy_id [simp]: "assign_copy t = t"
  by (simp add: assign_copy_def)

lemma cloneBars_id [simp]: "cloneBars bars = bars"
  by (simp add: cloneBars_def)

lemma sort_random_mset:
  assumes "env_ok e" and "sort_random e k xs = (ys, k')"
  shows "mset ys = mset xs"
proof -
  obtain p where p: "sort_order e k (length xs) = (p, k')" and ys: "ys = map (\<lambda>i. xs ! i) p"
    using assms(2) by (auto simp: sort_random_def split: prod.splits)
  have "mset p = mset [0..<length xs]"
    using assms(1) p unfolding env_ok_def by (metis fst_conv)
  then have "mset (map (\<lambda>i. xs ! i) p) = mset (map (\<lambda>i. xs ! i) [0..<length xs])"
    by (metis mset_map)
  then show ?thesis
    by (simp add: ys map_nth)
qed

lemma sort_random_set:
  "env_ok e \<Longrightarrow> sort_random e k xs = (ys, k') \<Longrightarrow> set ys = set xs"
  by (metis sort_random_mset set_mset_mset)

lemma sort_random_count:
  "env_ok e \<Longrightarrow> sort_random e k xs = (ys, k') \<Longrightarrow> k \<le> k'"
  unfolding env_ok_def sort_random_def by (auto split: prod.splits) (metis snd_conv)

lemma sort_random_length:
  "env_ok e \<Longrightarrow> sort_random e k xs = (ys, k') \<Longrightarrow> length ys = length xs"
  by (metis sort_random_mset size_mset)

lemma pickRandom_Some:
  assumes "env_ok e" and "arr \<noteq> []"
  shows "\<exists>c. fst (pickRandom e k arr) = Some c \<and> c \<in> set arr"
proof -
  let ?r = "math_random e k"
  let ?n = "length arr"
  have r: "0 \<le> ?r" "?r < 1"
    using assms(1) by (simp_all add: env_ok_def)
  have n: "0 < ?n" using assms(2) by simp
  have lo: "0 \<le> \<lfloor>?r * of_nat ?n\<rfloor>"
    using r by simp
  have "?r * of_nat ?n < of_nat ?n"
    using r n by simp
  then have "\<lfloor>?r * of_nat ?n\<rfloor> < int ?n"
    by (simp add: floor_less_iff)
  then have hi: "nat \<lfloor>?r * of_nat ?n\<rfloor> < ?n"
    using lo by linarith
  show ?thesis
    using lo hi by (simp add: pickRandom_def Math_random_def Let_def)
qed

lemma pickRandom_count: "snd (pickRandom e k arr) = Suc k"
  by (simp add: pickRandom_def Math_random_def Let_def)

lemma placeRequired_eq:
  "placeRequired ts (tokens, u) = (tokens @ ts, u + sum_list (map units ts))"
  by (induction ts arbitrary: tokens u) (simp_all add: algebra_simps)

lemma fillLoop_total:
  "env_ok e \<Longrightarrow> pool \<noteq> [] \<Longrightarrow> \<exists>res. fillLoop e pool tries k tokens u = Inr res"
proof (induction e pool tries k tokens u rule: fillLoop.induct)
  case (1 e pool tries k tokens u)
  obtain c where c: "fst (pickRandom e k pool) = Some c"
    using pickRandom_Some [OF "1.prems"] by blast
  then obtain k' where pk: "pickRandom e k pool = (Some c, k')"
    by (cases "pickRandom e k pool") simp
  show ?case
  proof (cases "u < UNITS_PER_BAR \<and> tries < maxTries")
    case True
    then show ?thesis
      using "1.IH"(1) [OF True pk [symmetric] refl] "1.IH"(2) [OF True pk [symmetric] refl] "1.prems" pk
      by (subst fillLoop.simps) (simp split: if_splits)
  next
    case False
    then show ?thesis
      by (subst fillLoop.simps) auto
  qed
qed

lemma fillLoop_tokens:
  "env_ok e \<Longrightarrow> fillLoop e pool tries k tokens u = Inr (tokens', u', k') \<Longrightarrow>
     \<exists>extra. tokens' = tokens @ extra \<and> set extra \<subseteq> set pool \<and>
       u' = u + sum_list (map units extra) \<and> (u \<le> UNITS_PER_BAR \<longrightarrow> u' \<le> UNITS_PER_BAR)"
proof (induction e pool tries k tokens u rule: fillLoop.induct)
  case (1 e pool tries k tokens u)
  show ?case
  proof (cases "u < UNITS_PER_BAR \<and> tries < maxTries")
    case False
    then show ?thesis
      using "1.prems"(2) by (subst (asm) fillLoop.simps) auto
  next
    case True
    show ?thesis
    proof (cases "pool = []")
      case True
      then have "fst (pickRandom e k pool) = None"
        by (simp add: pickRandom_def Math_random_def)
      then show ?thesis
        using "1.prems"(2) \<open>u < UNITS_PER_BAR \<and> tries < maxTries\<close>
        by (subst (asm) fillLoop.simps) (auto split: prod.splits option.splits)
    next
      case False
      obtain c where c: "fst (pickRandom e k pool) = Some c" "c \<in> set pool"
        using pickRandom_Some [OF "1.prems"(1) False] by blast
      then obtain k1 where pk: "pickRandom e k pool = (Some c, k1)"
        by (cases "pickRandom e k pool") simp
      show ?thesis
      proof (cases "u + units c > UNITS_PER_BAR")
        case over: True
        have "fillLoop e pool (tries + 1) k1 tokens u = Inr (tokens', u', k')"
          using "1.prems"(2) True pk over by (subst (asm) fillLoop.simps) simp
        from "1.IH"(1) [OF True pk [symmetric] refl over "1.prems"(1) this]
        show ?thesis .
      next
        case fits: False
        have "fillLoop e pool (tries + 1) k1 (tokens @ [assign_copy c]) (u + units c) = Inr (tokens', u', k')"
          using "1.prems"(2) True pk fits by (subst (asm) fillLoop.simps) simp
        from "1.IH"(2) [OF True pk [symmetric] refl fits "1.prems"(1) this]
        obtain extra where "tokens' = (tokens @ [assign_copy c]) @ extra" "set extra \<subseteq> set pool"
          "u' = u + units c + sum_list (map units extra)"
          "u + units c \<le> UNITS_PER_BAR \<longrightarrow> u' \<le> UNITS_PER_BAR"
          by blast
        then show ?thesis
          using c(2) fits by (intro exI [of _ "c # extra"]) auto
      qed
    qed
  qed
qed

lemma padLoop_eq:
  "padLoop tokens u = (tokens @ replicate (nat (UNITS_PER_BAR - u)) smallest, max u UNITS_PER_BAR)"
proof (induction tokens u rule: padLoop.induct)
  case (1 tokens u)
  show ?case
  proof (cases "u < UNITS_PER_BAR")
    case True
    then have "nat (UNITS_PER_BAR - u) = Suc (nat (UNITS_PER_BAR - (u + 1)))"
      by linarith
    then show ?thesis
      using "1.IH" [OF True] True
      by (subst padLoop.simps) (simp add: replicate_app_Cons_same)
  next
    case False
    then show ?thesis
      by (subst padLoop.simps) simp
  qed
qed

lemma trimLoop_tokens:
  "trimLoop tokens u i = (tokens', u') \<Longrightarrow>
     \<exists>n. tokens' = take n tokens \<and> u' = u - sum_list (map units (drop n tokens))"
proof (induction tokens u i arbitrary: tokens' u' rule: trimLoop.induct)
  case (1 tokens u i)
  show ?case
  proof (cases "u > UNITS_PER_BAR \<and> tokens \<noteq> [] \<and> i < 50")
    case True
    then have "trimLoop (butlast tokens) (u - units (last tokens)) (i + 1) = (tokens', u')"
      using "1.prems" by (subst (asm) trimLoop.simps) simp
    from "1.IH" [OF True this]
    obtain n where n: "tokens' = take n (butlast tokens)"
      "u' = u - units (last tokens) - sum_list (map units (drop n (butlast tokens)))"
      by blast
    let ?m = "min n (length tokens - 1)"
    have t: "tokens = butlast tokens @ [last tokens]"
      using True by simp
    have 1: "take n (butlast tokens) = take ?m tokens"
      by (simp add: butlast_conv_take min.commute)
    have "drop ?m tokens = drop ?m (butlast tokens) @ [last tokens]"
      by (subst t) (simp add: )
    moreover have "drop ?m (butlast tokens) = drop n (butlast tokens)"
      by (cases "n \<le> length tokens - 1") (simp_all add: min_def)
    ultimately have 2: "sum_list (map units (drop ?m tokens)) =
        sum_list (map units (drop n (butlast tokens))) + units (last tokens)"
      by simp
    show ?thesis
      using n 1 2 by (intro exI [of _ ?m]) simp
  next
    case False
    then have "tokens' = tokens" "u' = u"
      using "1.prems" by (subst (asm) trimLoop.simps; simp)+
    then show ?thesis
      by (intro exI [of _ "length tokens"]) simp
  qed
qed

subsection \<open>Padding with copies\<close>

lemma padOptions_eq:
  "padOptions correctBars options =
     options @ replicate (4 - length options) (cloneBars correctBars)"
proof (induction correctBars options rule: padOptions.induct)
  case (1 correctBars options)
  show ?case
  proof (cases "length options < 4")
    case True
    then have "4 - length options = Suc (4 - length (options @ [cloneBars correctBars]))"
      by simp
    then show ?thesis
      using "1.IH" [OF True] True
      by (subst padOptions.simps) (simp add: replicate_app_Cons_same del: cloneBars_id)
  next
    case False
    then show ?thesis
      by (subst padOptions.simps) simp
  qed
qed

text \<open>
  C10: a shallow copy of every token changes no property that the key reads, so
  \<^verbatim>\<open>barsKey(cloneBars(b))\<close> is \<^verbatim>\<open>barsKey(b)\<close>; and every option that the padding loop of
  \<^verbatim>\<open>generateOptions\<close> appends (the positions from the length of the collected options
  on) has the key of the correct rhythm.
\<close>

theorem cloneBars_key_preserved:
  "barsKey (cloneBars b) = barsKey b \<and>
   (\<forall>i. length options \<le> i \<and> i < length (padOptions b options) \<longrightarrow>
        barsKey (padOptions b options ! i) = barsKey b)"
proof
  have "map (map assign_copy) b = b"
    by (induction b) (simp_all add: assign_copy_def map_idI)
  then show key: "barsKey (cloneBars b) = barsKey b"
    by (simp add: cloneBars_def)
  show "\<forall>i. length options \<le> i \<and> i < length (padOptions b options) \<longrightarrow>
        barsKey (padOptions b options ! i) = barsKey b"
    using key by (auto simp: padOptions_eq nth_append simp del: cloneBars_id)
qed

theorem cloneBars_key_preserved_witness:
  "barsKey (cloneBars [[tripletGroup (TYPES_at ''quaver'')], [dottedOf (TYPES_at ''minim'')]])
     = ''triplet:quaver|dotted-minim:24:h:1'' \<and>
   length (padOptions [[TYPES_at ''semibreve''], []] [[[TYPES_at ''semibreve''], []]]) = 4 \<and>
   barsKey (padOptions [[TYPES_at ''semibreve''], []] [[[TYPES_at ''semibreve''], []]] ! 3)
     = ''semibreve:32:w:0|''"
proof -
  have 1: "barsKey [[tripletGroup (TYPES_at ''quaver'')], [dottedOf (TYPES_at ''minim'')]]
      = ''triplet:quaver|dotted-minim:24:h:1''"
    by code_simp
  have 2: "barsKey [[TYPES_at ''semibreve''], []] = ''semibreve:32:w:0|''"
    by code_simp
  have 3: "length (padOptions [[TYPES_at ''semibreve''], []] [[[TYPES_at ''semibreve''], []]]) = 4"
    by (simp add: padOptions_eq)
  show ?thesis
    using cloneBars_key_preserved [of "[[tripletGroup (TYPES_at ''quaver'')], [dottedOf (TYPES_at ''minim'')]]" "[]"]
      cloneBars_key_preserved [of "[[TYPES_at ''semibreve''], []]" "[[[TYPES_at ''semibreve''], []]]"]
      1 2 3
    by simp
qed

subsection \<open>Totality, and the loops of generateOptions\<close>

lemma fillBar_total:
  assumes "env_ok e" and "allowed_types \<noteq> []"
  shows "\<exists>bar k'. fillBar e k cfg allowed_types tpl reqs = Inr (bar, k')"
proof -
  obtain tokens u where pr: "placeRequired reqs ([], 0) = (tokens, u)"
    by (cases "placeRequired reqs ([], 0)")
  let ?pool = "allowed_types @ (if allowTriplets cfg then [tpl] else [])"
  have "?pool \<noteq> []" using assms(2) by simp
  from fillLoop_total [OF assms(1) this]
  obtain tokens1 u1 k1 where fl: "fillLoop e ?pool 0 k tokens u = Inr (tokens1, u1, k1)"
    by (metis prod_cases3)
  show ?thesis
    using pr fl
    by (cases "sort_random e k1 (fst (trimLoop (fst (padLoop tokens1 u1)) (snd (padLoop tokens1 u1)) 0))")
       (simp add: fillBar_def fillBar_filled_def Let_def split: prod.splits)
qed

lemma levelKeys_eq: "fst ` set LEVELS = {''easy'', ''medium'', ''difficult''}"
  by (auto simp: LEVELS_def)

lemma map_of_LEVELS:
  "levelKey \<in> fst ` set LEVELS \<Longrightarrow> \<exists>cfg. map_of LEVELS levelKey = Some cfg \<and> allowedOf cfg \<noteq> []"
  unfolding levelKeys_eq by (auto simp: LEVELS_def allowedOf_def)

lemma generateForLevel_total:
  assumes "env_ok e" and "levelKey \<in> fst ` set LEVELS"
  shows "\<exists>bars k'. generateForLevel e k levelKey = Inr (bars, k') \<and> length bars = 2"
proof -
  obtain cfg where cfg: "map_of LEVELS levelKey = Some cfg" "allowedOf cfg \<noteq> []"
    using map_of_LEVELS [OF assms(2)] by blast
  let ?tpl = "tripletGroup (TYPES_at ''quaver'')"
  obtain req k1 where rr: "resolveRequired e k cfg ?tpl = (req, k1)"
    by (cases "resolveRequired e k cfg ?tpl")
  obtain b0 b1 k2 where d: "distribute e k1 req ([], []) = ((b0, b1), k2)"
    by (metis prod.collapse)
  obtain bar0 k3 where f0: "fillBar e k2 cfg (allowedOf cfg) ?tpl b0 = Inr (bar0, k3)"
    using fillBar_total [OF assms(1) cfg(2)] by blast
  obtain bar1 k4 where f1: "fillBar e k3 cfg (allowedOf cfg) ?tpl b1 = Inr (bar1, k4)"
    using fillBar_total [OF assms(1) cfg(2)] by blast
  show ?thesis
    using cfg rr d f0 f1 by (simp add: generateForLevel_def Let_def)
qed

lemma collectOptions_total:
  "env_ok e \<Longrightarrow> levelKey \<in> fst ` set LEVELS \<Longrightarrow>
     \<exists>res. collectOptions e levelKey attempts k options seen = Inr res"
proof (induction e levelKey attempts k options seen rule: collectOptions.induct)
  case (1 e levelKey attempts k options seen)
  show ?case
  proof (cases "length options < 4 \<and> attempts < 200")
    case False
    then show ?thesis
      by (subst collectOptions.simps) (simp only: if_False, simp)
  next
    case True
    obtain cand k1 where g: "generateForLevel e k levelKey = Inr (cand, k1)"
      using generateForLevel_total [OF "1.prems"] by blast
    show ?thesis
      using "1.IH"(1) [OF True g refl refl _ "1.prems"] "1.IH"(2) [OF True g refl refl _ "1.prems"]
        True g
      by (subst collectOptions.simps) (simp add: Let_def)
  qed
qed

lemma collectOptions_keys:
  "collectOptions e levelKey attempts k options seen = Inr (options', seen', k') \<Longrightarrow>
     length options \<le> 4 \<Longrightarrow> distinct (map barsKey options) \<Longrightarrow>
     seen = set (map barsKey options) \<Longrightarrow>
     (\<exists>more. options' = options @ more) \<and> length options' \<le> 4 \<and>
       distinct (map barsKey options') \<and> seen' = set (map barsKey options')"
proof (induction e levelKey attempts k options seen rule: collectOptions.induct)
  case (1 e levelKey attempts k options seen)
  show ?case
  proof (cases "length options < 4 \<and> attempts < 200")
    case False
    then have "collectOptions e levelKey attempts k options seen = Inr (options, seen, k)"
      by (subst collectOptions.simps) (simp only: if_False)
    then have "options' = options" "seen' = seen" "k' = k"
      using "1.prems"(1) by simp_all
    then show ?thesis
      using "1.prems"(2-) by simp
  next
    case True
    show ?thesis
    proof (cases "generateForLevel e k levelKey")
      case (Inl err)
      then show ?thesis
        using "1.prems"(1) True by (subst (asm) collectOptions.simps) simp
    next
      case (Inr res)
      obtain cand k1 where g: "generateForLevel e k levelKey = Inr (cand, k1)"
        using Inr by (cases res) simp
      show ?thesis
      proof (cases "barsKey cand \<in> seen")
        case dup: True
        have "collectOptions e levelKey (attempts + 1) k1 options seen = Inr (options', seen', k')"
          using "1.prems"(1) True g dup by (subst (asm) collectOptions.simps) simp
        from "1.IH"(1) [OF True g refl refl dup this "1.prems"(2-)]
        show ?thesis .
      next
        case new: False
        have eq: "collectOptions e levelKey (attempts + 1) k1 (options @ [cand])
            (insert (barsKey cand) seen) = Inr (options', seen', k')"
          using "1.prems"(1) True g new by (subst (asm) collectOptions.simps) simp
        have p: "length (options @ [cand]) \<le> 4" "distinct (map barsKey (options @ [cand]))"
          "insert (barsKey cand) seen = set (map barsKey (options @ [cand]))"
          using True new "1.prems" by auto
        from "1.IH"(2) [OF True g refl refl new eq p]
        show ?thesis by auto
      qed
    qed
  qed
qed

lemma findIndex_from_found:
  "\<exists>x\<in>set xs. P x \<Longrightarrow>
     i \<le> findIndex_from P xs i \<and> findIndex_from P xs i < i + int (length xs) \<and>
     P (xs ! nat (findIndex_from P xs i - i))"
proof (induction xs arbitrary: i)
  case Nil
  then show ?case by simp
next
  case (Cons x xs)
  show ?case
  proof (cases "P x")
    case True
    then show ?thesis by simp
  next
    case False
    then have "\<exists>x\<in>set xs. P x" using Cons.prems by auto
    from Cons.IH [OF this, of "i + 1"]
    have ih: "i + 1 \<le> findIndex_from P xs (i + 1)"
      "findIndex_from P xs (i + 1) < i + 1 + int (length xs)"
      "P (xs ! nat (findIndex_from P xs (i + 1) - (i + 1)))"
      by simp_all
    have "nat (findIndex_from P xs (i + 1) - i) = Suc (nat (findIndex_from P xs (i + 1) - (i + 1)))"
      using ih(1) by linarith
    then show ?thesis
      using False ih by simp
  qed
qed

lemma findIndex_found:
  "\<exists>x\<in>set xs. P x \<Longrightarrow>
     0 \<le> findIndex P xs \<and> findIndex P xs < int (length xs) \<and> P (xs ! nat (findIndex P xs))"
  using findIndex_from_found [of xs P 0] by (simp add: findIndex_def)

text \<open>
  What \<^verbatim>\<open>generateOptions\<close> returns once the collecting loop has returned: a
  rearrangement of the padded options, with \<^verbatim>\<open>correctIndex\<close> at the correct rhythm.
\<close>

lemma generateOptions_result:
  assumes ok: "env_ok e"
    and co: "collectOptions e levelKey 0 k [correctBars] {barsKey correctBars} = Inr (options1, seen, k1)"
  shows "\<exists>options correctIndex k'.
     generateOptions e k correctBars levelKey = Inr ((options, correctIndex), k') \<and>
     length options1 \<le> 4 \<and> distinct (map barsKey options1) \<and>
     mset options = mset (options1 @ replicate (4 - length options1) (cloneBars correctBars)) \<and>
     length options = 4 \<and> 0 \<le> correctIndex \<and> correctIndex \<le> 3 \<and>
     options ! nat correctIndex = correctBars"
proof -
  from collectOptions_keys [OF co]
  obtain more where
    o1: "options1 = [correctBars] @ more" "length options1 \<le> 4" "distinct (map barsKey options1)"
    by auto
  let ?opts = "padOptions correctBars options1"
  have po: "?opts = options1 @ replicate (4 - length options1) (cloneBars correctBars)"
    by (rule padOptions_eq)
  have len: "length ?opts = 4"
    using o1(2) by (simp add: po)
  have hd: "?opts ! 0 = correctBars"
    by (subst po) (simp add: o1(1))
  obtain order k2 where sr: "sort_random e k1 (zip ?opts [0..<length ?opts]) = (order, k2)"
    by (cases "sort_random e k1 (zip ?opts [0..<length ?opts])")
  have ms: "mset order = mset (zip ?opts [0..<length ?opts])"
    by (rule sort_random_mset [OF ok sr])
  have so: "set order = set (zip ?opts [0..<length ?opts])"
    by (rule sort_random_set [OF ok sr])
  have "mset (map fst order) = mset (map fst (zip ?opts [0..<length ?opts]))"
    using ms by (metis mset_map)
  then have m1: "mset (map fst order) = mset ?opts"
    by simp
  then have l1: "length (map fst order) = 4"
    using len by (metis size_mset)
  have "(?opts ! 0, 0) \<in> set (zip ?opts [0..<length ?opts])"
    using len by (auto simp: in_set_zip intro!: exI [of _ 0])
  then have ex: "\<exists>x\<in>set order. snd x = 0"
    using so by force
  let ?ci = "findIndex (\<lambda>x. snd x = 0) order"
  from findIndex_found [OF ex]
  have ci: "0 \<le> ?ci" "?ci < int (length order)" "snd (order ! nat ?ci) = 0"
    by simp_all
  have nci: "nat ?ci < length order"
    using ci by linarith
  then have "order ! nat ?ci \<in> set (zip ?opts [0..<length ?opts])"
    using so nth_mem by blast
  then obtain j where j: "j < length ?opts" "order ! nat ?ci = (?opts ! j, [0..<length ?opts] ! j)"
    by (auto simp: in_set_zip)
  then have "j = 0"
    using ci(3) by simp
  then have "fst (order ! nat ?ci) = correctBars"
    using j hd by simp
  then have c: "map fst order ! nat ?ci = correctBars"
    using nci by simp
  have gen: "generateOptions e k correctBars levelKey = Inr ((map fst order, ?ci), k2)"
    using co sr by (simp add: generateOptions_def Let_def)
  show ?thesis
    using gen o1(2,3) m1 l1 ci c po by (auto simp: simp del: cloneBars_id)
qed

subsection \<open>The example engine is an engine\<close>

lemma insert_right_mset: "mset (fst (insert_right rnd k x ys)) = mset (x # ys)"
proof (induction ys arbitrary: k)
  case Nil
  then show ?case by simp
next
  case (Cons y ys)
  obtain zs k' where ir: "insert_right rnd (Suc k) x ys = (zs, k')"
    by (cases "insert_right rnd (Suc k) x ys")
  then have "mset zs = mset (x # ys)"
    using Cons.IH [of "Suc k"] by simp
  then show ?case
    using ir by simp
qed

lemma insertion_order_mset: "mset (fst (insertion_order rnd k xs rp)) = mset xs + mset rp"
proof (induction xs arbitrary: k rp)
  case Nil
  then show ?case by simp
next
  case (Cons x xs)
  obtain rp' k' where ir: "insert_right rnd k x rp = (rp', k')"
    by (cases "insert_right rnd k x rp")
  have "mset rp' = mset (x # rp)"
    using insert_right_mset [of rnd k x rp] ir by simp
  then show ?case
    using Cons.IH [of k' rp'] ir by simp
qed

lemma insert_right_count: "k \<le> snd (insert_right rnd k x ys)"
proof (induction ys arbitrary: k)
  case Nil
  then show ?case by simp
next
  case (Cons y ys)
  obtain zs k' where ir: "insert_right rnd (Suc k) x ys = (zs, k')"
    by (cases "insert_right rnd (Suc k) x ys")
  then have "Suc k \<le> k'"
    using Cons.IH [of "Suc k"] by simp
  then show ?case
    using ir by simp
qed

lemma insertion_order_count: "k \<le> snd (insertion_order rnd k xs rp)"
proof (induction xs arbitrary: k rp)
  case Nil
  then show ?case by simp
next
  case (Cons x xs)
  obtain rp' k' where ir: "insert_right rnd k x rp = (rp', k')"
    by (cases "insert_right rnd k x rp")
  have "k \<le> k'"
    using insert_right_count [of k rnd x rp] ir by simp
  then show ?case
    using Cons.IH [of k' rp'] ir by simp
qed

lemma insertion_engine_ok:
  "\<forall>k. 0 \<le> rnd k \<and> rnd k < 1 \<Longrightarrow> env_ok (insertion_engine rnd)"
  by (simp add: env_ok_def insertion_engine_def insertion_order_mset insertion_order_count)

lemma draws_ok:
  "\<forall>r\<in>set rs. 0 \<le> r \<and> r < 1 \<Longrightarrow> env_ok (insertion_engine (draws rs))"
  by (rule insertion_engine_ok) (simp add: draws_def)

subsection \<open>The options returned\<close>

text \<open>
  C2: for every correct rhythm and every level key of \<^verbatim>\<open>LEVELS\<close>, \<^verbatim>\<open>generateOptions\<close>
  returns (it does not throw) exactly 4 options and a \<^verbatim>\<open>correctIndex\<close> between 0 and 3, and
  the option at \<^verbatim>\<open>correctIndex\<close> has the key of the correct rhythm. The options are a
  rearrangement of the collected candidates followed by as many copies of the correct
  rhythm as are missing to 4.
\<close>

theorem generateOptions_four_options:
  assumes "env_ok e" and "levelKey \<in> fst ` set LEVELS"
  shows "\<exists>options correctIndex k'.
     generateOptions e k correctBars levelKey = Inr ((options, correctIndex), k') \<and>
     length options = 4 \<and> 0 \<le> correctIndex \<and> correctIndex \<le> 3 \<and>
     barsKey (options ! nat correctIndex) = barsKey correctBars \<and>
     (\<exists>options1 seen k1.
        collectOptions e levelKey 0 k [correctBars] {barsKey correctBars} = Inr (options1, seen, k1) \<and>
        mset options = mset (options1 @ replicate (4 - length options1) (cloneBars correctBars)))"
proof -
  obtain options1 seen k1 where
    co: "collectOptions e levelKey 0 k [correctBars] {barsKey correctBars} = Inr (options1, seen, k1)"
    using collectOptions_total [OF assms] by (metis prod_cases3)
  from generateOptions_result [OF assms(1) co]
  obtain options correctIndex k' where
    "generateOptions e k correctBars levelKey = Inr ((options, correctIndex), k')"
    "mset options = mset (options1 @ replicate (4 - length options1) (cloneBars correctBars))"
    "length options = 4" "0 \<le> correctIndex" "correctIndex \<le> 3"
    "options ! nat correctIndex = correctBars"
    by blast
  then show ?thesis
    using co by (intro exI [of _ options] exI [of _ correctIndex] exI [of _ k']) simp
qed

theorem generateOptions_four_options_witness:
  "env_ok (insertion_engine (draws [0, 0, 0, 0, 0, 3 / 4, 3 / 4, 3 / 4])) \<and>
   ''difficult'' \<in> fst ` set LEVELS \<and>
   generateOptions (insertion_engine (draws [0, 0, 0, 0, 0, 3 / 4, 3 / 4, 3 / 4])) 0
       [[TYPES_at ''minim'', TYPES_at ''minim''], [TYPES_at ''semibreve'']] ''difficult''
     = Inr (([[[TYPES_at ''minim'', TYPES_at ''minim''], [TYPES_at ''semibreve'']],
              [[TYPES_at ''semibreve''], [TYPES_at ''semibreve'']],
              [[TYPES_at ''minim'', TYPES_at ''minim''], [TYPES_at ''semibreve'']],
              [[TYPES_at ''minim'', TYPES_at ''minim''], [TYPES_at ''semibreve'']]], 0), 1803)"
proof -
  let ?e = "insertion_engine (draws [0, 0, 0, 0, 0, 3 / 4, 3 / 4, 3 / 4])"
  let ?c = "[[TYPES_at ''minim'', TYPES_at ''minim''], [TYPES_at ''semibreve'']]"
  have ok: "env_ok ?e"
    by (rule draws_ok) simp
  have lvl: "''difficult'' \<in> fst ` set LEVELS"
    by (simp add: LEVELS_def)
  have ev: "generateOptions ?e 0 ?c ''difficult''
     = Inr (([?c, [[TYPES_at ''semibreve''], [TYPES_at ''semibreve'']], ?c, ?c], 0), 1803)"
    by code_simp
  show ?thesis
    using generateOptions_four_options [OF ok lvl, of 0 ?c] ok lvl ev by simp
qed

text \<open>
  C4: when the collecting loop of \<^verbatim>\<open>generateOptions\<close> ends with 4 options (so the padding
  loop adds nothing), the 4 returned options are those 4 and have pairwise distinct keys.
\<close>

theorem generateOptions_distinct_keys:
  assumes "env_ok e"
    and "collectOptions e levelKey 0 k [correctBars] {barsKey correctBars} = Inr (options1, seen, k1)"
    and "length options1 = 4"
  shows "\<exists>options correctIndex k'.
     generateOptions e k correctBars levelKey = Inr ((options, correctIndex), k') \<and>
     mset options = mset options1 \<and> distinct (map barsKey options)"
proof -
  from generateOptions_result [OF assms(1,2)]
  obtain options correctIndex k' where
    g: "generateOptions e k correctBars levelKey = Inr ((options, correctIndex), k')"
    and d: "distinct (map barsKey options1)"
    and m: "mset options = mset (options1 @ replicate (4 - length options1) (cloneBars correctBars))"
    by blast
  have m1: "mset options = mset options1"
    using m assms(3) by simp
  then have "mset (map barsKey options) = mset (map barsKey options1)"
    by (metis mset_map)
  then have "distinct (map barsKey options)"
    using d by (metis mset_eq_imp_distinct_iff)
  then show ?thesis
    using g m1 by blast
qed

theorem generateOptions_distinct_keys_witness:
  "env_ok (insertion_engine (draws
      [1 / 2, 0, 0, 0, 3 / 4, 0, 0, 0, 0, 1 / 2, 1 / 2, 1 / 2, 3 / 4, 0, 0, 0,
       1 / 2, 1 / 2, 0, 0, 1 / 2, 1 / 2, 3 / 4, 0, 0, 0, 0, 3 / 4])) \<and>
   generateOptions (insertion_engine (draws
      [1 / 2, 0, 0, 0, 3 / 4, 0, 0, 0, 0, 1 / 2, 1 / 2, 1 / 2, 3 / 4, 0, 0, 0,
       1 / 2, 1 / 2, 0, 0, 1 / 2, 1 / 2, 3 / 4, 0, 0, 0, 0, 3 / 4])) 0
      [[TYPES_at ''semibreve''], [TYPES_at ''semibreve'']] ''easy''
     = Inr (([[[TYPES_at ''minim'', TYPES_at ''crotchet'', TYPES_at ''quaver'', TYPES_at ''quaver''],
               [TYPES_at ''semibreve'']],
              [[TYPES_at ''semibreve''], [TYPES_at ''semibreve'']],
              [[TYPES_at ''semibreve''],
               [TYPES_at ''minim'', TYPES_at ''crotchet'', TYPES_at ''quaver'', TYPES_at ''quaver'']],
              [[TYPES_at ''crotchet'', TYPES_at ''quaver'', TYPES_at ''crotchet'',
                TYPES_at ''crotchet'', TYPES_at ''quaver''],
               [TYPES_at ''semibreve'']]], 1), 30) \<and>
   distinct (map barsKey
      [[[TYPES_at ''minim'', TYPES_at ''crotchet'', TYPES_at ''quaver'', TYPES_at ''quaver''],
        [TYPES_at ''semibreve'']],
       [[TYPES_at ''semibreve''], [TYPES_at ''semibreve'']],
       [[TYPES_at ''semibreve''],
        [TYPES_at ''minim'', TYPES_at ''crotchet'', TYPES_at ''quaver'', TYPES_at ''quaver'']],
       [[TYPES_at ''crotchet'', TYPES_at ''quaver'', TYPES_at ''crotchet'',
         TYPES_at ''crotchet'', TYPES_at ''quaver''],
        [TYPES_at ''semibreve'']]])"
proof -
  let ?e = "insertion_engine (draws
      [1 / 2, 0, 0, 0, 3 / 4, 0, 0, 0, 0, 1 / 2, 1 / 2, 1 / 2, 3 / 4, 0, 0, 0,
       1 / 2, 1 / 2, 0, 0, 1 / 2, 1 / 2, 3 / 4, 0, 0, 0, 0, 3 / 4])"
  let ?c = "[[TYPES_at ''semibreve''], [TYPES_at ''semibreve'']]"
  let ?o1 = "[[TYPES_at ''minim'', TYPES_at ''crotchet'', TYPES_at ''quaver'', TYPES_at ''quaver''],
              [TYPES_at ''semibreve'']]"
  let ?o2 = "[[TYPES_at ''semibreve''],
              [TYPES_at ''minim'', TYPES_at ''crotchet'', TYPES_at ''quaver'', TYPES_at ''quaver'']]"
  let ?o3 = "[[TYPES_at ''crotchet'', TYPES_at ''quaver'', TYPES_at ''crotchet'',
               TYPES_at ''crotchet'', TYPES_at ''quaver''],
              [TYPES_at ''semibreve'']]"
  have ok: "env_ok ?e"
    by (rule draws_ok) simp
  have co: "collectOptions ?e ''easy'' 0 0 [?c] {barsKey ?c}
      = Inr ([?c, ?o1, ?o2, ?o3], {barsKey ?c, barsKey ?o1, barsKey ?o2, barsKey ?o3}, 27)"
    by code_simp
  have len: "length [?c, ?o1, ?o2, ?o3] = 4"
    by simp
  have ev: "generateOptions ?e 0 ?c ''easy'' = Inr (([?o1, ?c, ?o2, ?o3], 1), 30)"
    by code_simp
  show ?thesis
    using generateOptions_distinct_keys [OF ok co len] ok ev by simp
qed

subsection \<open>The tokens of an easy-level bar\<close>

lemma distribute_sets:
  "distribute e k reqs (b0, b1) = ((b0', b1'), k') \<Longrightarrow>
     set b0' \<union> set b1' = set b0 \<union> set b1 \<union> set reqs"
proof (induction reqs arbitrary: k b0 b1)
  case Nil
  then show ?case by simp
next
  case (Cons req reqs)
  show ?case
  proof (cases "math_random e k < 1 / 2")
    case True
    then have "distribute e (Suc k) reqs (b0 @ [req], b1) = ((b0', b1'), k')"
      using Cons.prems by (simp add: Math_random_def)
    from Cons.IH [OF this] show ?thesis by auto
  next
    case False
    then have "distribute e (Suc k) reqs (b0, b1 @ [req]) = ((b0', b1'), k')"
      using Cons.prems by (simp add: Math_random_def)
    from Cons.IH [OF this] show ?thesis by auto
  qed
qed

lemma fillBar_tokens:
  assumes ok: "env_ok e"
    and fb: "fillBar e k cfg allowed_types tpl reqs = Inr (bar, k')"
  shows "set bar \<subseteq> set reqs \<union> set allowed_types \<union> (if allowTriplets cfg then {tpl} else {}) \<union> {smallest}"
proof -
  let ?pool = "allowed_types @ (if allowTriplets cfg then [tpl] else [])"
  have pr: "placeRequired reqs ([], 0) = (reqs, sum_list (map units reqs))"
    by (simp add: placeRequired_eq)
  obtain tokens1 u1 k1 where
    fl: "fillLoop e ?pool 0 k reqs (sum_list (map units reqs)) = Inr (tokens1, u1, k1)"
    using fb by (auto simp: fillBar_def fillBar_filled_def pr Let_def split: sum.splits)
  obtain extra where ex: "tokens1 = reqs @ extra" "set extra \<subseteq> set ?pool"
    using fillLoop_tokens [OF ok fl] by blast
  obtain tokens3 u3 where
    tl: "trimLoop (tokens1 @ replicate (nat (UNITS_PER_BAR - u1)) smallest) (max u1 UNITS_PER_BAR) 0
          = (tokens3, u3)"
    by (metis prod.collapse)
  have sr: "sort_random e k1 tokens3 = (bar, k')"
    using fb fl tl by (simp add: fillBar_def fillBar_filled_def pr Let_def padLoop_eq)
  obtain n where "tokens3 = take n (tokens1 @ replicate (nat (UNITS_PER_BAR - u1)) smallest)"
    using trimLoop_tokens [OF tl] by blast
  then have "set tokens3 \<subseteq> set (tokens1 @ replicate (nat (UNITS_PER_BAR - u1)) smallest)"
    by (metis set_take_subset)
  then have "set tokens3 \<subseteq> set reqs \<union> set ?pool \<union> {smallest}"
    using ex by (auto split: if_splits)
  moreover have "set bar = set tokens3"
    by (rule sort_random_set [OF ok sr])
  ultimately show ?thesis
    by (auto split: if_splits)
qed

lemma distribute_count: "snd (distribute e k reqs br) = k + length reqs"
proof (induction reqs arbitrary: k br)
  case Nil
  then show ?case by simp
next
  case (Cons req reqs)
  obtain b0 b1 where "br = (b0, b1)"
    by (cases br)
  then show ?case
    using Cons.IH by (simp add: Math_random_def)
qed

lemma fillLoop_count:
  "env_ok e \<Longrightarrow> fillLoop e pool tries k tokens u = Inr (tokens', u', k') \<Longrightarrow>
     k \<le> k' \<and> (u' < UNITS_PER_BAR \<longrightarrow> k' = k + (maxTries - tries))"
proof (induction e pool tries k tokens u rule: fillLoop.induct)
  case (1 e pool tries k tokens u)
  show ?case
  proof (cases "u < UNITS_PER_BAR \<and> tries < maxTries")
    case False
    then have "fillLoop e pool tries k tokens u = Inr (tokens, u, k)"
      by (subst fillLoop.simps) (simp only: if_False)
    then show ?thesis
      using "1.prems"(2) False by auto
  next
    case True
    obtain c k1 where pk: "pickRandom e k pool = (c, k1)"
      by (cases "pickRandom e k pool")
    have k1: "k1 = Suc k"
      using pickRandom_count [of e k pool] pk by simp
    show ?thesis
    proof (cases c)
      case None
      then show ?thesis
        using "1.prems"(2) True pk by (subst (asm) fillLoop.simps) simp
    next
      case (Some cand)
      show ?thesis
      proof (cases "u + units cand > UNITS_PER_BAR")
        case over: True
        have "fillLoop e pool (tries + 1) k1 tokens u = Inr (tokens', u', k')"
          using "1.prems"(2) True pk Some over by (subst (asm) fillLoop.simps) simp
        from "1.IH"(1) [OF True pk [symmetric] Some over "1.prems"(1) this]
        show ?thesis
          using k1 True by auto
      next
        case fits: False
        have "fillLoop e pool (tries + 1) k1 (tokens @ [assign_copy cand]) (u + units cand)
            = Inr (tokens', u', k')"
          using "1.prems"(2) True pk Some fits by (subst (asm) fillLoop.simps) simp
        from "1.IH"(2) [OF True pk [symmetric] Some fits "1.prems"(1) this]
        show ?thesis
          using k1 True by auto
      qed
    qed
  qed
qed

lemma fillBar_count:
  assumes ok: "env_ok e"
    and fb: "fillBar e k cfg allowed_types tpl reqs = Inr (bar, k')"
  shows "k \<le> k' \<and>
     (smallest \<in> set bar \<longrightarrow>
        smallest \<in> set reqs \<union> set allowed_types \<union> (if allowTriplets cfg then {tpl} else {}) \<or>
        k + maxTries \<le> k')"
proof -
  let ?pool = "allowed_types @ (if allowTriplets cfg then [tpl] else [])"
  have pr: "placeRequired reqs ([], 0) = (reqs, sum_list (map units reqs))"
    by (simp add: placeRequired_eq)
  obtain tokens1 u1 k1 where
    fl: "fillLoop e ?pool 0 k reqs (sum_list (map units reqs)) = Inr (tokens1, u1, k1)"
    using fb by (auto simp: fillBar_def fillBar_filled_def pr Let_def split: sum.splits)
  obtain extra where ex: "tokens1 = reqs @ extra" "set extra \<subseteq> set ?pool"
    using fillLoop_tokens [OF ok fl] by blast
  have cnt: "k \<le> k1" "u1 < UNITS_PER_BAR \<longrightarrow> k1 = k + maxTries"
    using fillLoop_count [OF ok fl] by simp_all
  obtain tokens3 u3 where
    tl: "trimLoop (tokens1 @ replicate (nat (UNITS_PER_BAR - u1)) smallest) (max u1 UNITS_PER_BAR) 0
          = (tokens3, u3)"
    by (metis prod.collapse)
  have sr: "sort_random e k1 tokens3 = (bar, k')"
    using fb fl tl by (simp add: fillBar_def fillBar_filled_def pr Let_def padLoop_eq)
  have k1: "k1 \<le> k'"
    by (rule sort_random_count [OF ok sr])
  obtain n where "tokens3 = take n (tokens1 @ replicate (nat (UNITS_PER_BAR - u1)) smallest)"
    using trimLoop_tokens [OF tl] by blast
  then have sub: "set tokens3 \<subseteq> set reqs \<union> set extra \<union> set (replicate (nat (UNITS_PER_BAR - u1)) smallest)"
    using ex(1) set_take_subset [of n "tokens1 @ replicate (nat (UNITS_PER_BAR - u1)) smallest"] by auto
  have sb: "set bar = set tokens3"
    by (rule sort_random_set [OF ok sr])
  have "smallest \<in> set reqs \<union> set ?pool \<or> k + maxTries \<le> k'" if "smallest \<in> set bar"
  proof (cases "u1 < UNITS_PER_BAR")
    case True
    then show ?thesis
      using cnt(2) k1 by simp
  next
    case False
    then have "replicate (nat (UNITS_PER_BAR - u1)) smallest = []"
      by simp
    then show ?thesis
      using that sb sub ex(2) by auto
  qed
  then show ?thesis
    using cnt(1) k1 by (auto split: if_splits)
qed

text \<open>
  C6, as the code has it: for the easy level, whatever the random source gives, the
  generator returns two bars, and every token of them is a semibreve, a minim, a
  crotchet or a quaver of the catalogue, or the demisemiquaver that the padding loop of
  \<^verbatim>\<open>fillBar\<close> appends. No dotted, triplet or semiquaver token appears. A demisemiquaver
  appears only when the sampling loop of a bar has used all its 1000 tries: the call has
  then drawn at least 1000 random values.
\<close>

theorem easy_level_tokens:
  assumes "env_ok e"
  shows "\<exists>bars k'. generateForLevel e k ''easy'' = Inr (bars, k') \<and> length bars = 2 \<and>
           (\<forall>bar\<in>set bars. \<forall>t\<in>set bar.
              t \<in> set (map TYPES_at [''semibreve'', ''minim'', ''crotchet'', ''quaver'']) \<or>
              t = smallest) \<and>
           ((\<exists>bar\<in>set bars. smallest \<in> set bar) \<longrightarrow> k + maxTries \<le> k')"
proof -
  define easy_types where
    "easy_types = map TYPES_at [''semibreve'', ''minim'', ''crotchet'', ''quaver'']"
  let ?cfg = "LEVELS_at ''easy''"
  let ?tpl = "tripletGroup (TYPES_at ''quaver'')"
  have cfg: "map_of LEVELS ''easy'' = Some ?cfg"
    by (simp add: LEVELS_def LEVELS_at_def)
  have al: "allowedOf ?cfg = easy_types" "\<not> allowTriplets ?cfg"
    by (simp_all add: LEVELS_def LEVELS_at_def allowedOf_def easy_types_def)
  have ns: "smallest \<notin> set easy_types"
    by (simp add: easy_types_def smallest_def TYPES_at_def TYPES_def plain_def)
  have rr: "resolveRequired e k ?cfg ?tpl = (easy_types, k)"
    by (simp add: resolveRequired_def LEVELS_def LEVELS_at_def easy_types_def)
  obtain bars k' where g: "generateForLevel e k ''easy'' = Inr (bars, k')" "length bars = 2"
    using generateForLevel_total [OF assms, of "''easy''" k] by (auto simp: LEVELS_def)
  obtain b0 b1 k2 where d: "distribute e k easy_types ([], []) = ((b0, b1), k2)"
    by (metis prod.collapse)
  have sub: "set b0 \<subseteq> set easy_types" "set b1 \<subseteq> set easy_types"
    using distribute_sets [OF d] by auto
  have k2: "k \<le> k2"
    using distribute_count [of e k easy_types "([], [])"] d by simp
  obtain bar0 k3 bar1 where
    f0: "fillBar e k2 ?cfg easy_types ?tpl b0 = Inr (bar0, k3)" and
    f1: "fillBar e k3 ?cfg easy_types ?tpl b1 = Inr (bar1, k')" and
    bars: "bars = [bar0, bar1]"
    using g(1) cfg rr d al by (auto simp: generateForLevel_def Let_def split: sum.splits)
  have t: "set bar0 \<subseteq> set easy_types \<union> {smallest}" "set bar1 \<subseteq> set easy_types \<union> {smallest}"
    using fillBar_tokens [OF assms f0] fillBar_tokens [OF assms f1] sub al(2) by auto
  have c0: "k2 \<le> k3" "smallest \<in> set bar0 \<longrightarrow> k2 + maxTries \<le> k3"
    using fillBar_count [OF assms f0] sub(1) al(2) ns by auto
  have c1: "k3 \<le> k'" "smallest \<in> set bar1 \<longrightarrow> k3 + maxTries \<le> k'"
    using fillBar_count [OF assms f1] sub(2) al(2) ns by auto
  have "(\<exists>bar\<in>set bars. smallest \<in> set bar) \<longrightarrow> k + maxTries \<le> k'"
    using bars k2 c0 c1 by auto
  then show ?thesis
    using g bars t unfolding easy_types_def by auto
qed

theorem easy_level_tokens_witness:
  "env_ok (insertion_engine (draws [1 / 2, 0, 0, 0, 3 / 4])) \<and>
   generateForLevel (insertion_engine (draws [1 / 2, 0, 0, 0, 3 / 4])) 0 ''easy''
     = Inr ([[TYPES_at ''minim'', TYPES_at ''crotchet'', TYPES_at ''quaver'', TYPES_at ''quaver''],
             [TYPES_at ''semibreve'']], 8) \<and>
   set [TYPES_at ''minim'', TYPES_at ''crotchet'', TYPES_at ''quaver'', TYPES_at ''quaver'',
        TYPES_at ''semibreve'']
     \<subseteq> set (map TYPES_at [''semibreve'', ''minim'', ''crotchet'', ''quaver'']) \<union> {smallest}"
proof -
  let ?e = "insertion_engine (draws [1 / 2, 0, 0, 0, 3 / 4])"
  have ok: "env_ok ?e"
    by (rule draws_ok) simp
  have ev: "generateForLevel ?e 0 ''easy''
     = Inr ([[TYPES_at ''minim'', TYPES_at ''crotchet'', TYPES_at ''quaver'', TYPES_at ''quaver''],
             [TYPES_at ''semibreve'']], 8)"
    by code_simp
  show ?thesis
    using easy_level_tokens [OF ok, of 0] ok ev by auto
qed

text \<open>
  C6 as stated fails: when the first value drawn is 0.5 and every later one is 0, the
  semibreve goes to bar 1 and the other three required tokens to bar 0 (28 units); the
  fill loop then draws the semibreve 1000 times, which never fits, and the padding loop
  appends four demisemiquavers to an easy-level bar.
\<close>

theorem easy_level_demisemiquaver:
  "generateForLevel (insertion_engine (draws [1 / 2])) 0 ''easy''
     = Inr ([[TYPES_at ''minim'', TYPES_at ''crotchet'', TYPES_at ''quaver'',
              smallest, smallest, smallest, smallest],
             [TYPES_at ''semibreve'']], 1010) \<and>
   name smallest = ''demisemiquaver'' \<and>
   smallest \<notin> set (map TYPES_at [''semibreve'', ''minim'', ''crotchet'', ''quaver''])"
  by code_simp

subsection \<open>Required tokens that do not fit\<close>

text \<open>
  C1 fails on the code. For the medium level, with the values 0.5, 0, 0, 0.5, 0.5, 0, 0.5
  drawn for the seven required tokens, bar 0 receives the minim, the crotchet and the
  dotted minim (48 units). No filling or padding happens, the trim pops the dotted minim,
  and the bar is returned with 24 units: the trim comes after the padding loop, and
  nothing fills the bar again.
\<close>

theorem medium_bar_sums_to_24:
  "generateForLevel (insertion_engine (draws [1 / 2, 0, 0, 1 / 2, 1 / 2, 0, 1 / 2])) 0 ''medium''
     = Inr ([[TYPES_at ''minim'', TYPES_at ''crotchet''], [TYPES_at ''semibreve'']], 8) \<and>
   sum_list (map units [TYPES_at ''minim'', TYPES_at ''crotchet'']) = 24"
  by code_simp

text \<open>
  C3 fails on the code. For the medium level, when every value drawn is 0, all seven
  required tokens go to bar 0 (94 units) and the trim pops the triplet group, the dotted
  minim and four more tokens; bar 1 is filled by one semibreve. The rhythm has neither a
  dotted token nor a triplet group.
\<close>

theorem medium_without_dotted_or_triplet:
  "generateForLevel (insertion_engine (draws [])) 0 ''medium''
     = Inr ([[TYPES_at ''semibreve''], [TYPES_at ''semibreve'']], 8) \<and>
   dots (TYPES_at ''semibreve'') = None \<and> isTriplet (TYPES_at ''semibreve'') = False"
  by code_simp

text \<open>
  C7 fails on the code. For the easy level, when every value drawn is 0, the four
  required tokens all go to bar 0, \<^verbatim>\<open>usedUnits\<close> is 60 when the trim is reached, and the
  trim pops three tokens.
\<close>

theorem easy_bar_overfilled:
  "resolveRequired (insertion_engine (draws [])) 0 (LEVELS_at ''easy'') (tripletGroup (TYPES_at ''quaver''))
     = ([TYPES_at ''semibreve'', TYPES_at ''minim'', TYPES_at ''crotchet'', TYPES_at ''quaver''], 0) \<and>
   distribute (insertion_engine (draws [])) 0
       [TYPES_at ''semibreve'', TYPES_at ''minim'', TYPES_at ''crotchet'', TYPES_at ''quaver''] ([], [])
     = (([TYPES_at ''semibreve'', TYPES_at ''minim'', TYPES_at ''crotchet'', TYPES_at ''quaver''], []), 4) \<and>
   fillBar_filled (insertion_engine (draws [])) 4 (LEVELS_at ''easy'') (allowedOf (LEVELS_at ''easy''))
       (tripletGroup (TYPES_at ''quaver''))
       [TYPES_at ''semibreve'', TYPES_at ''minim'', TYPES_at ''crotchet'', TYPES_at ''quaver'']
     = Inr ([TYPES_at ''semibreve'', TYPES_at ''minim'', TYPES_at ''crotchet'', TYPES_at ''quaver''], 60, 4) \<and>
   trimLoop [TYPES_at ''semibreve'', TYPES_at ''minim'', TYPES_at ''crotchet'', TYPES_at ''quaver''] 60 0
     = ([TYPES_at ''semibreve''], 32)"
  by code_simp

subsection \<open>The canonical key determines the rhythm\<close>

lemma catalogue_keys:
  "map tokenKey catalogue_tokens =
     [''semibreve:32:w:0'', ''minim:16:h:0'', ''crotchet:8:q:0'', ''quaver:4:8:0'',
      ''semiquaver:2:16:0'', ''demisemiquaver:1:32:0'',
      ''dotted-semibreve:48:w:1'', ''dotted-minim:24:h:1'', ''dotted-crotchet:12:q:1'',
      ''dotted-quaver:6:8:1'', ''dotted-semiquaver:3:16:1'', ''dotted-demisemiquaver:1:32:1'',
      ''triplet:semibreve'', ''triplet:minim'', ''triplet:crotchet'', ''triplet:quaver'',
      ''triplet:semiquaver'', ''triplet:demisemiquaver'']"
  by code_simp

lemma catalogue_keys_prefix_free:
  "\<forall>a\<in>set (map tokenKey catalogue_tokens). \<forall>b\<in>set (map tokenKey catalogue_tokens).
     prefix a b \<longrightarrow> a = b"
  unfolding catalogue_keys by code_simp

lemma catalogue_keys_distinct: "distinct (map tokenKey catalogue_tokens)"
  unfolding catalogue_keys by code_simp

lemma catalogue_keys_chars:
  "\<forall>a\<in>set (map tokenKey catalogue_tokens). a \<noteq> [] \<and> CHR ''|'' \<notin> set a"
  unfolding catalogue_keys by code_simp

lemma tokenKey_cut:
  assumes x: "x \<in> set catalogue_tokens" and y: "y \<in> set catalogue_tokens"
    and eq: "tokenKey x @ r = tokenKey y @ r'"
  shows "x = y \<and> r = r'"
proof -
  have kx: "tokenKey x \<in> set (map tokenKey catalogue_tokens)"
    and ky: "tokenKey y \<in> set (map tokenKey catalogue_tokens)"
    using x y by simp_all
  have "prefix (tokenKey x) (tokenKey y) \<or> prefix (tokenKey y) (tokenKey x)"
    using eq by (metis append_prefixD prefixI prefix_same_cases)
  then have k: "tokenKey x = tokenKey y"
    using catalogue_keys_prefix_free kx ky by metis
  then have "x = y"
    using catalogue_keys_distinct x y by (metis distinct_map inj_onD)
  then show ?thesis
    using eq by simp
qed

lemma join_Cons:
  "join sep (x # xs) = x @ (if xs = [] then [] else sep @ join sep xs)"
  by (cases xs) simp_all

lemma barKey_injective:
  "set xs \<subseteq> set catalogue_tokens \<Longrightarrow> set ys \<subseteq> set catalogue_tokens \<Longrightarrow>
     join ''-'' (map tokenKey xs) = join ''-'' (map tokenKey ys) \<Longrightarrow> xs = ys"
proof (induction xs arbitrary: ys)
  case Nil
  show ?case
  proof (cases ys)
    case Nil
    then show ?thesis by simp
  next
    case (Cons y ys')
    then have "tokenKey y \<noteq> []"
      using Nil.prems(2) catalogue_keys_chars by auto
    then show ?thesis
      using Nil.prems(3) Cons by (simp add: join_Cons)
  qed
next
  case (Cons x xs)
  show ?case
  proof (cases ys)
    case Nil
    have "tokenKey x \<noteq> []"
      using Cons.prems(1) catalogue_keys_chars by auto
    then show ?thesis
      using Cons.prems(3) Nil by (simp add: join_Cons)
  next
    case ys: (Cons y ys')
    let ?rx = "if map tokenKey xs = [] then [] else ''-'' @ join ''-'' (map tokenKey xs)"
    let ?ry = "if map tokenKey ys' = [] then [] else ''-'' @ join ''-'' (map tokenKey ys')"
    have "tokenKey x @ ?rx = tokenKey y @ ?ry"
      using Cons.prems(3) ys by (simp add: join_Cons)
    then have xy: "x = y" and r: "?rx = ?ry"
      using tokenKey_cut [of x y ?rx ?ry] Cons.prems(1,2) ys by auto
    have "join ''-'' (map tokenKey xs) = join ''-'' (map tokenKey ys')"
      using r by (cases "xs = []"; cases "ys' = []") simp_all
    then have "xs = ys'"
      using Cons.IH [of ys'] Cons.prems(1,2) ys by simp
    then show ?thesis
      using xy ys by simp
  qed
qed

lemma set_join: "set (join sep xs) \<subseteq> set sep \<union> \<Union> (set ` set xs)"
  by (induction sep xs rule: join.induct) auto

lemma barKey_no_bar:
  assumes "set bar \<subseteq> set catalogue_tokens"
  shows "CHR ''|'' \<notin> set (join ''-'' (map tokenKey bar))"
proof
  assume "CHR ''|'' \<in> set (join ''-'' (map tokenKey bar))"
  then have "CHR ''|'' \<in> set ''-'' \<union> \<Union> (set ` set (map tokenKey bar))"
    using set_join by blast
  then obtain t where "t \<in> set bar" "CHR ''|'' \<in> set (tokenKey t)"
    by auto
  then show False
    using assms catalogue_keys_chars by auto
qed

lemma split_at_first:
  "c \<notin> set a \<Longrightarrow> c \<notin> set b \<Longrightarrow> a @ c # r = b @ c # r' \<Longrightarrow> a = b \<and> r = r'"
proof (induction a arbitrary: b)
  case Nil
  then show ?case by (cases b) auto
next
  case (Cons x a)
  then show ?case by (cases b) auto
qed

lemma join_bar_injective:
  "length xs = length ys \<Longrightarrow> \<forall>x\<in>set xs. c \<notin> set x \<Longrightarrow> \<forall>y\<in>set ys. c \<notin> set y \<Longrightarrow>
     join [c] xs = join [c] ys \<Longrightarrow> xs = ys"
proof (induction xs ys rule: list_induct2)
  case Nil
  then show ?case by simp
next
  case (Cons x xs y ys)
  show ?case
  proof (cases "xs = []")
    case True
    then show ?thesis
      using Cons.hyps Cons.prems(3) by (simp add: join_Cons)
  next
    case False
    then have ys: "ys \<noteq> []"
      using Cons.hyps by auto
    have "x @ c # join [c] xs = y @ c # join [c] ys"
      using Cons.prems(3) False ys by (simp add: join_Cons)
    moreover have "c \<notin> set x" "c \<notin> set y"
      using Cons.prems(1,2) by simp_all
    ultimately have "x = y \<and> join [c] xs = join [c] ys"
      by (rule split_at_first [rotated 2])
    then show ?thesis
      using Cons.IH Cons.prems(1,2) by simp
  qed
qed

text \<open>
  C5: \<^verbatim>\<open>barsKey\<close> is a function of the bars and their tokens in order, and on rhythms
  made of catalogue tokens (all that the generator returns, by
  \<open>generateForLevel_catalogue\<close> below) with the same number of bars it is injective: two
  such rhythms have equal keys if and only if they are the same list of the same lists
  of tokens. In particular a rhythm and a token-for-token copy of it have one key.
\<close>

theorem barsKey_equal_iff:
  assumes "length r1 = length r2"
    and "\<forall>bar\<in>set r1. set bar \<subseteq> set catalogue_tokens"
    and "\<forall>bar\<in>set r2. set bar \<subseteq> set catalogue_tokens"
  shows "barsKey r1 = barsKey r2 \<longleftrightarrow> r1 = r2"
proof
  assume eq: "barsKey r1 = barsKey r2"
  let ?k = "\<lambda>bar. join ''-'' (map tokenKey bar)"
  have "map ?k r1 = map ?k r2"
  proof (rule join_bar_injective [where c = "CHR ''|''"])
    show "length (map ?k r1) = length (map ?k r2)"
      using assms(1) by simp
    show "\<forall>x\<in>set (map ?k r1). CHR ''|'' \<notin> set x"
      using assms(2) barKey_no_bar by auto
    show "\<forall>y\<in>set (map ?k r2). CHR ''|'' \<notin> set y"
      using assms(3) barKey_no_bar by auto
    show "join ''|'' (map ?k r1) = join ''|'' (map ?k r2)"
      using eq by (simp add: barsKey_def)
  qed
  moreover have "inj_on ?k (set r1 \<union> set r2)"
  proof (rule inj_onI)
    fix a b
    assume "a \<in> set r1 \<union> set r2" "b \<in> set r1 \<union> set r2" "?k a = ?k b"
    then show "a = b"
      using assms(2,3) barKey_injective [of a b] by blast
  qed
  ultimately show "r1 = r2"
    by (rule map_inj_on)
next
  assume "r1 = r2"
  then show "barsKey r1 = barsKey r2"
    by simp
qed

lemma LEVELS_keys_in_TYPES:
  "\<forall>cfg\<in>set (map snd LEVELS).
     set (allowed cfg) \<subseteq> set (map fst TYPES) \<and>
     set (required cfg) \<subseteq> set (map fst TYPES) \<union> {''dotted'', ''triplet''}"
  "''quaver'' \<in> set (map fst TYPES)" "''crotchet'' \<in> set (map fst TYPES)"
  "''medium'' \<in> set (map fst LEVELS)" "''difficult'' \<in> set (map fst LEVELS)"
  by code_simp+

lemma catalogue_closed:
  "\<forall>cfg\<in>set (map snd LEVELS).
     set (allowedOf cfg) \<subseteq> set catalogue_tokens \<and>
     set (map TYPES_at (allowed (LEVELS_at ''difficult''))) \<subseteq> set catalogue_tokens \<and>
     set (map (\<lambda>r. if r = ''dotted'' then dottedOf dotted_base
                     else if r = ''triplet'' then tripletGroup (TYPES_at ''quaver'')
                     else TYPES_at r) (required cfg)) \<subseteq> set catalogue_tokens"
  "tripletGroup (TYPES_at ''quaver'') \<in> set catalogue_tokens"
  "smallest \<in> set catalogue_tokens"
  by code_simp+

lemma resolveRequired_catalogue:
  assumes ok: "env_ok e" and cfg: "cfg \<in> set (map snd LEVELS)"
    and rr: "resolveRequired e k cfg (tripletGroup (TYPES_at ''quaver'')) = (req, k')"
  shows "set req \<subseteq> set catalogue_tokens"
proof (cases "halfOfTypes cfg")
  case True
  obtain shuffled where sr: "sort_random e k (allowed (LEVELS_at ''difficult'')) = (shuffled, k')"
    and req: "req = map TYPES_at (take (max 1 (length (allowed (LEVELS_at ''difficult'')) div 2)) shuffled)"
    using rr True by (auto simp: resolveRequired_def Let_def split: prod.splits)
  have "set shuffled = set (allowed (LEVELS_at ''difficult''))"
    by (rule sort_random_set [OF ok sr])
  then have "set req \<subseteq> set (map TYPES_at (allowed (LEVELS_at ''difficult'')))"
    unfolding req using set_take_subset [of _ shuffled] by auto
  then show ?thesis
    using catalogue_closed(1) cfg by blast
next
  case False
  then have "set req \<subseteq> set (map (\<lambda>r. if r = ''dotted'' then dottedOf dotted_base
                     else if r = ''triplet'' then tripletGroup (TYPES_at ''quaver'')
                     else TYPES_at r) (required cfg))"
    using rr by (auto simp: resolveRequired_def split: if_splits)
  then show ?thesis
    using catalogue_closed(1) cfg by blast
qed

lemma generateForLevel_catalogue:
  assumes ok: "env_ok e" and g: "generateForLevel e k levelKey = Inr (bars, k')"
  shows "length bars = 2 \<and> (\<forall>bar\<in>set bars. set bar \<subseteq> set catalogue_tokens)"
proof -
  let ?tpl = "tripletGroup (TYPES_at ''quaver'')"
  obtain cfg where m: "map_of LEVELS levelKey = Some cfg"
    using g by (auto simp: generateForLevel_def split: option.splits)
  then have cfg: "cfg \<in> set (map snd LEVELS)"
    by (metis map_of_SomeD image_eqI set_map snd_conv)
  obtain req k1 where rr: "resolveRequired e k cfg ?tpl = (req, k1)"
    by (cases "resolveRequired e k cfg ?tpl")
  obtain b0 b1 k2 where d: "distribute e k1 req ([], []) = ((b0, b1), k2)"
    by (metis prod.collapse)
  obtain bar0 k3 bar1 where
    f0: "fillBar e k2 cfg (allowedOf cfg) ?tpl b0 = Inr (bar0, k3)" and
    f1: "fillBar e k3 cfg (allowedOf cfg) ?tpl b1 = Inr (bar1, k')" and
    bars: "bars = [bar0, bar1]"
    using g m rr d by (auto simp: generateForLevel_def Let_def split: sum.splits)
  have r: "set req \<subseteq> set catalogue_tokens"
    by (rule resolveRequired_catalogue [OF ok cfg rr])
  have sub: "set b0 \<subseteq> set catalogue_tokens" "set b1 \<subseteq> set catalogue_tokens"
    using distribute_sets [OF d] r by auto
  have al: "set (allowedOf cfg) \<subseteq> set catalogue_tokens"
    using catalogue_closed(1) cfg by blast
  have "set bar0 \<subseteq> set catalogue_tokens" "set bar1 \<subseteq> set catalogue_tokens"
    using fillBar_tokens [OF ok f0] fillBar_tokens [OF ok f1] sub al catalogue_closed(2,3)
    by (auto split: if_splits)
  then show ?thesis
    using bars by simp
qed

theorem barsKey_equal_iff_witness:
  "length [[dottedOf (TYPES_at ''minim''), tripletGroup (TYPES_at ''quaver'')], [TYPES_at ''semibreve'']]
     = length [[tripletGroup (TYPES_at ''quaver''), dottedOf (TYPES_at ''minim'')], [TYPES_at ''semibreve'']] \<and>
   barsKey [[dottedOf (TYPES_at ''minim''), tripletGroup (TYPES_at ''quaver'')], [TYPES_at ''semibreve'']]
     \<noteq> barsKey [[tripletGroup (TYPES_at ''quaver''), dottedOf (TYPES_at ''minim'')], [TYPES_at ''semibreve'']] \<and>
   barsKey [[dottedOf (TYPES_at ''minim''), tripletGroup (TYPES_at ''quaver'')], [TYPES_at ''semibreve'']]
     = barsKey (cloneBars
         [[dottedOf (TYPES_at ''minim''), tripletGroup (TYPES_at ''quaver'')], [TYPES_at ''semibreve'']])"
proof -
  let ?r1 = "[[dottedOf (TYPES_at ''minim''), tripletGroup (TYPES_at ''quaver'')], [TYPES_at ''semibreve'']]"
  let ?r2 = "[[tripletGroup (TYPES_at ''quaver''), dottedOf (TYPES_at ''minim'')], [TYPES_at ''semibreve'']]"
  have len: "length ?r1 = length ?r2" "length ?r1 = length (cloneBars ?r1)"
    by simp_all
  have c1: "\<forall>bar\<in>set ?r1. set bar \<subseteq> set catalogue_tokens"
    by code_simp
  have c2: "\<forall>bar\<in>set ?r2. set bar \<subseteq> set catalogue_tokens"
    by code_simp
  have c3: "\<forall>bar\<in>set (cloneBars ?r1). set bar \<subseteq> set catalogue_tokens"
    by code_simp
  have ne: "?r1 \<noteq> ?r2"
    by code_simp
  have eq: "?r1 = cloneBars ?r1"
    by code_simp
  show ?thesis
    using barsKey_equal_iff [OF len(1) c1 c2] barsKey_equal_iff [OF len(2) c1 c3] ne eq len(1)
    by blast
qed

subsection \<open>The required tokens of the difficult level\<close>

lemma difficult_keys:
  "halfOfTypes (LEVELS_at ''difficult'')"
  "length (allowed (LEVELS_at ''difficult'')) = 6"
  "distinct (map TYPES_at (allowed (LEVELS_at ''difficult'')))"
  "set (map TYPES_at (allowed (LEVELS_at ''difficult''))) = set (map snd TYPES)"
  by code_simp+

lemma difficult_two_calls:
  "generateForLevel (insertion_engine (draws [0, 0, 0, 0, 0, 0, 0, 0, 0, 3 / 4, 0, 3 / 4])) 0 ''difficult''
     = Inr ([[TYPES_at ''semibreve''], [TYPES_at ''semibreve'']], 9)"
  "fst (resolveRequired (insertion_engine (draws [0, 0, 0, 0, 0, 0, 0, 0, 0, 3 / 4, 0, 3 / 4])) 0
       (LEVELS_at ''difficult'') (tripletGroup (TYPES_at ''quaver'')))
     = [TYPES_at ''semibreve'', TYPES_at ''minim'', TYPES_at ''crotchet'']"
  "fst (resolveRequired (insertion_engine (draws [0, 0, 0, 0, 0, 0, 0, 0, 0, 3 / 4, 0, 3 / 4])) 9
       (LEVELS_at ''difficult'') (tripletGroup (TYPES_at ''quaver'')))
     = [TYPES_at ''minim'', TYPES_at ''semibreve'', TYPES_at ''quaver'']"
  "set [TYPES_at ''semibreve'', TYPES_at ''minim'', TYPES_at ''crotchet'']
     \<noteq> set [TYPES_at ''minim'', TYPES_at ''semibreve'', TYPES_at ''quaver'']"
  by code_simp+

text \<open>
  C8, as the code has it: for the difficult level each call resolves its required tokens
  anew, as the first 3 of the 6 base types in the order that the random sort leaves them
  in. For every engine they are exactly 3 pairwise distinct entries of \<^verbatim>\<open>TYPES\<close>, and two
  consecutive calls can resolve different sets.
\<close>

theorem difficult_required_tokens:
  "(env_ok e \<longrightarrow>
      (\<exists>req k'. resolveRequired e k (LEVELS_at ''difficult'') (tripletGroup (TYPES_at ''quaver''))
           = (req, k') \<and>
         length req = 3 \<and> distinct req \<and> set req \<subseteq> set (map snd TYPES))) \<and>
   (\<exists>e' bars k1. env_ok e' \<and> generateForLevel e' 0 ''difficult'' = Inr (bars, k1) \<and>
      set (fst (resolveRequired e' 0 (LEVELS_at ''difficult'') (tripletGroup (TYPES_at ''quaver''))))
        \<noteq> set (fst (resolveRequired e' k1 (LEVELS_at ''difficult'') (tripletGroup (TYPES_at ''quaver'')))))"
proof (intro conjI impI)
  assume ok: "env_ok e"
  let ?keys = "allowed (LEVELS_at ''difficult'')"
  obtain shuffled k' where sr: "sort_random e k ?keys = (shuffled, k')"
    by (cases "sort_random e k ?keys")
  have ms: "mset shuffled = mset ?keys"
    by (rule sort_random_mset [OF ok sr])
  have rr: "resolveRequired e k (LEVELS_at ''difficult'') (tripletGroup (TYPES_at ''quaver''))
      = (map TYPES_at (take 3 shuffled), k')"
    using sr by (simp add: resolveRequired_def difficult_keys(1,2))
  have len: "length shuffled = 6"
    using ms difficult_keys(2) by (metis size_mset)
  have "mset (map TYPES_at shuffled) = mset (map TYPES_at ?keys)"
    using ms by (metis mset_map)
  then have d: "distinct (map TYPES_at shuffled)"
    and s: "set (map TYPES_at shuffled) = set (map snd TYPES)"
    using difficult_keys(3,4) by (metis mset_eq_imp_distinct_iff, metis set_mset_mset)
  have "distinct (take 3 (map TYPES_at shuffled))"
    using d by (rule distinct_take)
  moreover have "set (take 3 (map TYPES_at shuffled)) \<subseteq> set (map snd TYPES)"
    using s set_take_subset by metis
  ultimately show "\<exists>req k'. resolveRequired e k (LEVELS_at ''difficult'') (tripletGroup (TYPES_at ''quaver''))
           = (req, k') \<and>
         length req = 3 \<and> distinct req \<and> set req \<subseteq> set (map snd TYPES)"
    using rr len by (simp add: take_map)
next
  let ?e = "insertion_engine (draws [0, 0, 0, 0, 0, 0, 0, 0, 0, 3 / 4, 0, 3 / 4])"
  have "env_ok ?e"
    by (rule draws_ok) simp
  then show "\<exists>e' bars k1. env_ok e' \<and> generateForLevel e' 0 ''difficult'' = Inr (bars, k1) \<and>
      set (fst (resolveRequired e' 0 (LEVELS_at ''difficult'') (tripletGroup (TYPES_at ''quaver''))))
        \<noteq> set (fst (resolveRequired e' k1 (LEVELS_at ''difficult'') (tripletGroup (TYPES_at ''quaver''))))"
    using difficult_two_calls
    by (intro exI [of _ ?e] exI [of _ "[[TYPES_at ''semibreve''], [TYPES_at ''semibreve'']]"]
          exI [of _ 9]) (simp only: simp_thms)
qed

theorem difficult_required_tokens_witness:
  "env_ok (insertion_engine (draws [0, 0, 0, 0, 0, 0, 0, 0, 0, 3 / 4, 0, 3 / 4])) \<and>
   resolveRequired (insertion_engine (draws [0, 0, 0, 0, 0, 0, 0, 0, 0, 3 / 4, 0, 3 / 4])) 9
       (LEVELS_at ''difficult'') (tripletGroup (TYPES_at ''quaver''))
     = ([TYPES_at ''minim'', TYPES_at ''semibreve'', TYPES_at ''quaver''], 15) \<and>
   length [TYPES_at ''minim'', TYPES_at ''semibreve'', TYPES_at ''quaver''] = 3 \<and>
   distinct [TYPES_at ''minim'', TYPES_at ''semibreve'', TYPES_at ''quaver''] \<and>
   set [TYPES_at ''minim'', TYPES_at ''semibreve'', TYPES_at ''quaver''] \<subseteq> set (map snd TYPES)"
proof -
  let ?e = "insertion_engine (draws [0, 0, 0, 0, 0, 0, 0, 0, 0, 3 / 4, 0, 3 / 4])"
  have ok: "env_ok ?e"
    by (rule draws_ok) simp
  have ev: "resolveRequired ?e 9 (LEVELS_at ''difficult'') (tripletGroup (TYPES_at ''quaver''))
     = ([TYPES_at ''minim'', TYPES_at ''semibreve'', TYPES_at ''quaver''], 15)"
    by code_simp
  show ?thesis
    using difficult_required_tokens [of ?e 9] ok ev by auto
qed

subsection \<open>Counting the runs of the example engine\<close>

lemma run_map_dtree:
  "run (map_dtree f t) c k = (case run t c k of (a, k') \<Rightarrow> (f a, k'))"
  by (induction t arbitrary: k) simp_all

lemma run_bind_dtree:
  "run (bind_dtree t f) c k = (case run t c k of (a, k') \<Rightarrow> run (f a) c k')"
  by (induction t arbitrary: k) simp_all

lemma insert_right_tree:
  "insert_right rnd k x ys = run (insert_tree x ys) (\<lambda>j. rnd j - 1 / 2 > 0) k"
  by (induction ys arbitrary: k) (simp_all add: run_map_dtree)

lemma insertion_order_tree:
  "insertion_order rnd k xs rp = run (order_tree xs rp) (\<lambda>j. rnd j - 1 / 2 > 0) k"
  by (induction xs arbitrary: k rp) (simp_all add: run_bind_dtree insert_right_tree)

lemma sign_source_positive:
  "(sign_source bs j - 1 / 2 > 0) = (j < length bs \<and> bs ! j)"
  by (simp add: sign_source_def draws_def)

lemma run_run_list:
  "fst (run t (\<lambda>j. j < length bs \<and> bs ! j) k) = run_list t (drop k bs)"
proof (induction t arbitrary: k)
  case (Leaf a)
  then show ?case by simp
next
  case (Node l r)
  show ?case
  proof (cases "k < length bs")
    case True
    then have "drop k bs = bs ! k # drop (Suc k) bs"
      by (simp add: Cons_nth_drop_Suc)
    then show ?thesis
      using True Node.IH [of "Suc k"] by simp
  next
    case False
    then show ?thesis
      using Node.IH(1) [of "Suc k"] by simp
  qed
qed

lemma count_concat:
  "length (filter Q (concat (map f zs))) = sum_list (map (\<lambda>z. length (filter Q (f z))) zs)"
  by (induction zs) simp_all

lemma count_indicator:
  "sum_list (map (\<lambda>z. if Q z then 1 else 0) zs) = length (filter Q zs)"
  by (induction zs) simp_all

lemma count_run_list:
  "height t \<le> n \<Longrightarrow>
     length (filter (\<lambda>bs. P (run_list t bs)) (List.n_lists n [False, True])) = weight n P t"
proof (induction t arbitrary: n)
  case (Leaf a)
  have "Suc (Suc 0) ^ n = (2::nat) ^ n"
    by (simp add: numeral_2_eq_2)
  then show ?case
    by (simp add: length_n_lists)
next
  case (Node l r)
  then obtain m where n: "n = Suc m" "height l \<le> m" "height r \<le> m"
    by (cases n) auto
  have pt: "length (filter (\<lambda>bs. P (run_list (Node l r) bs)) (map (\<lambda>y. y # ys) [False, True]))
      = (if P (run_list l ys) then 1 else 0) + (if P (run_list r ys) then 1 else 0)" for ys
    by simp
  have "length (filter (\<lambda>bs. P (run_list (Node l r) bs)) (List.n_lists (Suc m) [False, True]))
      = sum_list (map (\<lambda>ys. (if P (run_list l ys) then 1 else 0) + (if P (run_list r ys) then 1 else 0))
          (List.n_lists m [False, True]))"
    by (simp only: n_lists.simps count_concat pt)
  also have "\<dots> = sum_list (map (\<lambda>ys. if P (run_list l ys) then 1 else 0) (List.n_lists m [False, True]))
      + sum_list (map (\<lambda>ys. if P (run_list r ys) then 1 else 0) (List.n_lists m [False, True]))"
    by (simp add: sum_list_addf)
  also have "\<dots> = length (filter (\<lambda>bs. P (run_list l bs)) (List.n_lists m [False, True]))
      + length (filter (\<lambda>bs. P (run_list r bs)) (List.n_lists m [False, True]))"
    by (simp add: count_indicator)
  finally show ?case
    using Node.IH(1) [OF n(2)] Node.IH(2) [OF n(3)] n(1) by simp
qed

lemma chosen_types_tree:
  "chosen_types bs =
     map (\<lambda>k. name (TYPES_at k))
       (take 3 (map (\<lambda>i. allowed (LEVELS_at ''difficult'') ! i)
          (run_list (order_tree [0..<6] []) bs)))"
proof -
  have h: "halfOfTypes (LEVELS_at ''difficult'')" "length (allowed (LEVELS_at ''difficult'')) = 6"
    by (simp_all add: LEVELS_at_def LEVELS_def)
  have "insertion_order (sign_source bs) 0 [0..<6] []
      = run (order_tree [0..<6] []) (\<lambda>j. j < length bs \<and> bs ! j) 0"
    by (simp only: insertion_order_tree sign_source_positive)
  then have "fst (insertion_order (sign_source bs) 0 [0..<6] []) = run_list (order_tree [0..<6] []) bs"
    using run_run_list [of "order_tree [0..<6] []" bs 0] by simp
  then show ?thesis
    by (auto simp: chosen_types_def resolveRequired_def sort_random_def insertion_engine_def h
        comp_def split: prod.splits)
qed

lemma order_tree_height: "height (order_tree [0..<6] []) \<le> 15"
  by code_simp

lemma times_chosen_weight:
  "times_chosen S =
     weight 15 (\<lambda>p. set (map (\<lambda>k. name (TYPES_at k))
       (take 3 (map (\<lambda>i. allowed (LEVELS_at ''difficult'') ! i) p))) = S) (order_tree [0..<6] [])"
  unfolding times_chosen_def chosen_types_tree
  by (rule count_run_list [OF order_tree_height])

text \<open>
  C8 as stated fails in ``uniformly''. With the example engine, of the 32768 equally
  likely sign sequences of the comparator, 10752 choose semibreve, minim and crotchet
  and 64 choose quaver, semiquaver and demisemiquaver; a uniform choice among the 20
  sets would give each the same number. No sort that calls the comparator a bounded
  number of times can do better (\<open>no_sort_chooses_uniformly\<close> below).
\<close>

theorem difficult_choice_not_uniform:
  "length (List.n_lists 15 [False, True]) = 32768 \<and>
   times_chosen {''semibreve'', ''minim'', ''crotchet''} = 10752 \<and>
   times_chosen {''quaver'', ''semiquaver'', ''demisemiquaver''} = 64"
proof -
  have "length [False, True] = 2"
    by simp
  then have "length (List.n_lists 15 [False, True]) = 2 ^ 15"
    by (simp only: length_n_lists)
  then have 1: "length (List.n_lists 15 [False, True]) = 32768"
    by simp
  have 2: "weight 15 (\<lambda>p. set (map (\<lambda>k. name (TYPES_at k))
       (take 3 (map (\<lambda>i. allowed (LEVELS_at ''difficult'') ! i) p))) = {''semibreve'', ''minim'', ''crotchet''}) (order_tree [0..<6] []) = 10752"
    by code_simp
  have 3: "weight 15 (\<lambda>p. set (map (\<lambda>k. name (TYPES_at k))
       (take 3 (map (\<lambda>i. allowed (LEVELS_at ''difficult'') ! i) p))) = {''quaver'', ''semiquaver'', ''demisemiquaver''}) (order_tree [0..<6] []) = 64"
    by code_simp
  show ?thesis
    using 1 2 3 by (simp only: times_chosen_weight)
qed

lemma power_2_mod_5: "(2::nat) ^ n mod 5 \<noteq> 0"
proof (induction n)
  case 0
  then show ?case by simp
next
  case (Suc n)
  have 1: "(2::nat) ^ Suc n mod 5 = 2 * (2 ^ n mod 5) mod 5"
    by (simp add: mod_mult_right_eq)
  have 2: "2 * x mod 5 \<noteq> 0" if "x \<noteq> 0" "x < 5" for x :: nat
    using that by presburger
  have "(2::nat) ^ n mod 5 < 5"
    by simp
  then show ?case
    unfolding 1 using Suc.IH by (rule 2 [rotated])
qed

lemma no_sort_chooses_uniformly:
  "20 * length (filter (\<lambda>bs. P (run_list t bs)) (List.n_lists n [False, True])) \<noteq> 2 ^ n"
proof
  let ?w = "length (filter (\<lambda>bs. P (run_list t bs)) (List.n_lists n [False, True]))"
  assume a: "20 * ?w = 2 ^ n"
  have "20 * ?w = 5 * (4 * ?w)"
    by simp
  then have "20 * ?w mod 5 = 0"
    by (simp only: mod_mult_self1_is_0)
  then show False
    using a power_2_mod_5 [of n] by simp
qed

subsection \<open>The clicks of a triplet group\<close>

lemma tripletLoop_unfold:
  "tripletLoop rd subDur isFirst 0 cursor clicks =
     (clicks @ [(cursor, isFirst), (rd (cursor + subDur), False),
                (rd (rd (cursor + subDur) + subDur), False)],
      rd (rd (rd (cursor + subDur) + subDur) + subDur))"
  by (subst tripletLoop.simps, subst tripletLoop.simps, subst tripletLoop.simps,
      subst tripletLoop.simps) simp

text \<open>
  C9, as the code has it: for a triplet group of 8 units, whatever the rounding, three
  clicks are scheduled, the first at the cursor and each next one \<^verbatim>\<open>subDur\<close> later, where
  \<^verbatim>\<open>subDur\<close> is \<^verbatim>\<open>(8 / 3) * secondsPerUnit\<close> as the arithmetic computes it. In exact
  arithmetic the cursor advances by exactly \<open>8 * spu\<close>, as it does for a plain token of 8
  units.
\<close>

theorem triplet_playback:
  assumes "isTriplet token" and "units token = 8"
  shows "(\<exists>t1 t2 cursor'.
            playToken rd spu token isFirst cursor [] = ([(cursor, isFirst), (t1, False), (t2, False)], cursor') \<and>
            t1 = rd (cursor + rd (rd (8 / 3) * spu)) \<and>
            t2 = rd (t1 + rd (rd (8 / 3) * spu)) \<and>
            cursor' = rd (t2 + rd (rd (8 / 3) * spu))) \<and>
         playToken (\<lambda>x. x) spu token isFirst cursor []
           = ([(cursor, isFirst), (cursor + 8 / 3 * spu, False), (cursor + 8 / 3 * spu + 8 / 3 * spu, False)],
              cursor + 8 * spu) \<and>
         snd (playToken (\<lambda>x. x) spu token isFirst cursor [])
           = snd (playToken (\<lambda>x. x) spu (TYPES_at ''crotchet'') isFirst cursor [])"
proof -
  have c: "\<not> isTriplet (TYPES_at ''crotchet'')" "units (TYPES_at ''crotchet'') = 8"
    by (simp_all add: TYPES_at_def TYPES_def plain_def)
  show ?thesis
    using assms c by (simp add: playToken_def tripletLoop_unfold Let_def)
qed

theorem triplet_playback_witness:
  "isTriplet (tripletGroup (TYPES_at ''quaver'')) \<and> units (tripletGroup (TYPES_at ''quaver'')) = 8 \<and>
   playToken (\<lambda>x. x) (5 / 64) (tripletGroup (TYPES_at ''quaver'')) True (1 / 10) []
     = ([(1 / 10, True), (37 / 120, False), (31 / 60, False)], 29 / 40) \<and>
   snd (playToken (\<lambda>x. x) (5 / 64) (TYPES_at ''crotchet'') True (1 / 10) []) = 29 / 40"
proof -
  have t: "isTriplet (tripletGroup (TYPES_at ''quaver''))" "units (tripletGroup (TYPES_at ''quaver'')) = 8"
    by (simp_all add: tripletGroup_def UNITS_PER_QUARTER_def)
  note th = triplet_playback [OF t, of "\<lambda>x. x" "5 / 64" True "1 / 10"]
  have 1: "playToken (\<lambda>x. x) (5 / 64) (tripletGroup (TYPES_at ''quaver'')) True (1 / 10) []
     = ([(1 / 10, True), (37 / 120, False), (31 / 60, False)], 29 / 40)"
    using th by simp
  have "snd (playToken (\<lambda>x. x) (5 / 64) (TYPES_at ''crotchet'') True (1 / 10) [])
     = snd (playToken (\<lambda>x. x) (5 / 64) (tripletGroup (TYPES_at ''quaver'')) True (1 / 10) [])"
    by (rule sym) (use th in blast)
  then have 2: "snd (playToken (\<lambda>x. x) (5 / 64) (TYPES_at ''crotchet'') True (1 / 10) []) = 29 / 40"
    by (simp only: 1 snd_conv)
  show ?thesis
    using t 1 2 by blast
qed

text \<open>
  C9 as stated fails in the arithmetic of the language. With the program's
  \<^verbatim>\<open>secondsPerUnit\<close> and the cursor at \<^verbatim>\<open>0 + 0.1\<close>, the three rounded additions of
  \<^verbatim>\<open>subDur\<close> end at 0.7249999999999999, and the single addition for a crotchet ends at
  0.725.
\<close>

theorem triplet_playback_rounded:
  "secondsPerUnit = 5 / 64 \<and>
   units (tripletGroup (TYPES_at ''quaver'')) = 8 \<and>
   playToken round_double secondsPerUnit (tripletGroup (TYPES_at ''quaver'')) True (round_double (1 / 10)) []
     = ([(3602879701896397 / 36028797018963968, True),
         (1388609885105903 / 4503599627370496, False),
         (581714951868689 / 1125899906842624, False)],
        3265109729843609 / 4503599627370496) \<and>
   playToken round_double secondsPerUnit (TYPES_at ''crotchet'') True (round_double (1 / 10)) []
     = ([(3602879701896397 / 36028797018963968, True)], 6530219459687219 / 9007199254740992) \<and>
   (3265109729843609 / 4503599627370496 :: real) \<noteq> 6530219459687219 / 9007199254740992"
  by code_simp

end
